theory Spec2Isabelle
  imports Complex_Main
begin

section \<open>The Crossref paginator \<open>query_all\<close> of \<open>utilities.py\<close>\<close>

text \<open>
  \<open>query_all\<close> is a Python generator: a loop that asks the Crossref API for one page
  per pass, sleeps and shrinks the page size after a failed call, and yields the items
  of every good page. The embedding keeps the local variables of the generator in a
  record, turns one pass of the loop body into a function of the state and of the
  response the API call of that pass receives, and runs the loop over the list of
  responses the environment supplies. What the generator does to the outside (the
  request it sends, the sleep, the items it yields) is returned as a list of events.
\<close>

subsection \<open>Data\<close>

text \<open>
  The exceptions that leave the generator. \<open>NameError\<close> stands for the
  \<open>UnboundLocalError\<close> (a subclass of \<open>NameError\<close>) of reading a local variable that was
  never assigned; \<open>JSONDecodeError\<close> is what \<open>response.json()\<close> raises on a body that is
  not JSON.
\<close>

datatype error = NameError | KeyError string | AssertionError | JSONDecodeError

text \<open>
  The payload \<open>response.json()\<close> returns, in the shape the code reads it:
  \<open>{status, message: {total-results, items, next-cursor, query: {start-index}}}\<close>.
  A key that may be absent is an option (\<open>None\<close>: the key is absent, and subscripting
  raises \<open>KeyError\<close>). The value of \<open>next-cursor\<close> is itself \<open>None\<close> or a string, as the
  \<open>cursor\<close> argument is.
\<close>

record query =
  start_index :: "int option"

record 'a message =
  total_results :: "int option"
  items :: "'a list option"
  next_cursor :: "string option option"
  query :: "query option"

record 'a payload =
  status :: "string option"
  message :: "'a message option"

text \<open>
  What one call of \<open>api_query\<close> comes back with: an exception of the transport
  (caught by \<open>except Exception\<close>), or a response with its status code and its body
  (\<open>None\<close>: the body is not JSON).
\<close>

datatype 'a response = TransportError | Response int "'a payload option"

text \<open>
  The progress bar: \<open>tqdm(desc=component, total=total)\<close> starts with \<open>n = 0\<close>, and
  \<open>update(k)\<close> adds \<open>k\<close> to \<open>n\<close>. The local variable \<open>total\<close> is assigned on the two lines
  before the bar is made and never again, so it is read from the bar.
\<close>

record tqdm =
  tqdm_total :: int
  tqdm_n :: int

text \<open>
  The arguments \<open>batch_size\<close>, \<open>max_items\<close> and the local variables of the generator.
  \<open>offset = None\<close> is the unbound local variable: line 51 assigns it only when the cursor
  is falsy. \<open>successive_errors\<close> starts at 0 and is only incremented or reset to 0.
\<close>

record state =
  batch_size :: int
  max_items :: "int option"
  progress_bar :: "tqdm option"
  incomplete :: bool
  successive_errors :: nat
  rows :: int
  cursor :: "string option"
  offset :: "int option"

text \<open>The keyword arguments of the call beside \<open>rows\<close>: a dict with exactly one key.\<close>

datatype params = CursorParam string | OffsetParam int

datatype 'a event = Request int params | Sleep nat | Yield 'a

datatype outcome = Finished state | Raised error | Pending state

subsection \<open>Python primitives\<close>

text \<open>Truth value of the \<open>cursor\<close> (\<open>None\<close> or a string): false for \<open>None\<close> and for \<open>''\<close>.\<close>

fun truthy :: "string option \<Rightarrow> bool" where
  "truthy None = False"
| "truthy (Some c) = (c \<noteq> [])"

text \<open>
  \<open>int(0.75 * rows)\<close>: the product is computed in binary64, where \<open>0.75\<close> is exact and
  \<open>3 * rows / 4\<close> is exact as long as \<open>3 * |rows| < 2^53\<close>; \<open>int\<close> truncates toward zero.
\<close>

definition shrink :: "int \<Rightarrow> int" where
  "shrink r = (if 0 \<le> r then (3 * r) div 4 else - ((3 * (- r)) div 4))"

text \<open>
  The slice \<open>xs[:k]\<close>: the first \<open>k\<close> elements for \<open>k \<ge> 0\<close>, and all but the last \<open>-k\<close>
  elements for a negative \<open>k\<close>.
\<close>

definition py_slice_to :: "'a list \<Rightarrow> int \<Rightarrow> 'a list" where
  "py_slice_to xs k = (if 0 \<le> k then take (nat k) xs else take (nat (int (length xs) + k)) xs)"

subsection \<open>The generator\<close>

text \<open>Lines 46 to 51: the state before the first pass of the loop.\<close>

definition query_all_init :: "int \<Rightarrow> string option \<Rightarrow> int option \<Rightarrow> state" where
  "query_all_init batch_size' cursor' max_items' =
     \<lparr> batch_size = batch_size', max_items = max_items', progress_bar = None,
       incomplete = True, successive_errors = 0, rows = batch_size', cursor = cursor',
       offset = (if \<not> truthy cursor' then Some 0 else None) \<rparr>"

text \<open>Line 56: \<open>params = {'cursor': cursor} if cursor else {'offset': offset}\<close>.\<close>

definition build_params :: "state \<Rightarrow> error + params" where
  "build_params s =
     (case (if truthy (cursor s) then cursor s else None) of
        Some c \<Rightarrow> Inr (CursorParam c)
      | None \<Rightarrow> (case offset s of None \<Rightarrow> Inl NameError | Some off \<Rightarrow> Inr (OffsetParam off)))"

text \<open>
  Lines 60 to 67 and 71 to 79, the same in both: count the error, sleep
  \<open>2 ** successive_errors\<close>, shrink \<open>rows\<close>, \<open>continue\<close>.
\<close>

definition recoverable_error :: "state \<Rightarrow> 'a event list \<times> (error + state)" where
  "recoverable_error s =
     (let k = successive_errors s + 1
      in ([Sleep (2 ^ k)], Inr (s\<lparr>successive_errors := k, rows := shrink (rows s)\<rparr>)))"

text \<open>Lines 95 to 99: the bar of this pass, made on the first good page.\<close>

definition init_progress_bar :: "state \<Rightarrow> 'a payload \<Rightarrow> error + tqdm" where
  "init_progress_bar s result =
     (case progress_bar s of
        Some pb \<Rightarrow> Inr pb
      | None \<Rightarrow>
          (case message result of
             None \<Rightarrow> Inl (KeyError ''message'')
           | Some m \<Rightarrow>
               (case total_results m of
                  None \<Rightarrow> Inl (KeyError ''total-results'')
                | Some t \<Rightarrow>
                    Inr \<lparr> tqdm_total = (case max_items s of None \<Rightarrow> t | Some k \<Rightarrow> min t k),
                          tqdm_n = 0 \<rparr>)))"

text \<open>Line 103, before the slice: \<open>result['message']['items']\<close>.\<close>

definition lookup_items :: "'a payload \<Rightarrow> error + 'a list" where
  "lookup_items result =
     (case message result of
        None \<Rightarrow> Inl (KeyError ''message'')
      | Some m \<Rightarrow> (case items m of None \<Rightarrow> Inl (KeyError ''items'') | Some xs \<Rightarrow> Inr xs))"

text \<open>
  Line 114: \<open>result['message']['query']['start-index']\<close> inside the \<open>try\<close> whose
  \<open>except KeyError: pass\<close> swallows every missing key; \<open>None\<close> is that case.
\<close>

definition lookup_start_index :: "'a payload \<Rightarrow> int option" where
  "lookup_start_index result =
     (case message result of
        None \<Rightarrow> None
      | Some m \<Rightarrow> (case query m of None \<Rightarrow> None | Some q \<Rightarrow> start_index q))"

text \<open>
  Lines 107 to 119, with \<open>k = len(items)\<close>: the cursor is replaced by \<open>next-cursor\<close>, or
  the offset is checked against \<open>start-index\<close> (assertions enabled, as Python runs by
  default) and advanced by \<open>k\<close>.
\<close>

definition update_position :: "state \<Rightarrow> 'a payload \<Rightarrow> nat \<Rightarrow> error + state" where
  "update_position s result k =
     (if truthy (cursor s) then
        (case message result of
           None \<Rightarrow> Inl (KeyError ''message'')
         | Some m \<Rightarrow>
             (case next_cursor m of
                None \<Rightarrow> Inl (KeyError ''next-cursor'')
              | Some c \<Rightarrow> Inr (s\<lparr>cursor := c\<rparr>)))
      else
        (case offset s of
           None \<Rightarrow> Inl NameError
         | Some off \<Rightarrow>
             (case lookup_start_index result of
                None \<Rightarrow> Inr (s\<lparr>offset := Some (off + int k)\<rparr>)
              | Some i \<Rightarrow>
                  if off = i then Inr (s\<lparr>offset := Some (off + int k)\<rparr>)
                  else Inl AssertionError)))"

text \<open>
  Lines 94 to 121: a page whose status is \<open>ok\<close>. The items are yielded before the position
  is updated, so they are events of the pass also when the update raises.
\<close>

definition process_page :: "state \<Rightarrow> 'a payload \<Rightarrow> 'a event list \<times> (error + state)" where
  "process_page s result =
     (case init_progress_bar s result of
        Inl e \<Rightarrow> ([], Inl e)
      | Inr pb \<Rightarrow>
          (case lookup_items result of
             Inl e \<Rightarrow> ([], Inl e)
           | Inr all_items \<Rightarrow>
               (let remaining = tqdm_total pb - tqdm_n pb;
                    taken = py_slice_to all_items remaining
                in (map Yield taken,
                    case update_position s result (length taken) of
                      Inl e \<Rightarrow> Inl e
                    | Inr s' \<Rightarrow>
                        Inr (s'\<lparr>progress_bar := Some (pb\<lparr>tqdm_n := tqdm_n pb + int (length taken)\<rparr>),
                                incomplete := (taken \<noteq> [])\<rparr>)))))"

text \<open>Lines 57 to 121: what the loop body does with the response of its call.\<close>

definition handle_response :: "state \<Rightarrow> 'a response \<Rightarrow> 'a event list \<times> (error + state)" where
  "handle_response s r =
     (case r of
        TransportError \<Rightarrow> recoverable_error s
      | Response status_code body \<Rightarrow>
          if status_code \<noteq> 200 then recoverable_error s
          else
            (let s1 = s\<lparr>successive_errors := 0, rows := batch_size s\<rparr>
             in case body of
                  None \<Rightarrow> ([], Inl JSONDecodeError)
                | Some result \<Rightarrow>
                    if status result \<noteq> Some ''ok'' then ([], Inr s1)
                    else process_page s1 result))"

text \<open>
  One pass of the loop body, lines 56 to 121: build the parameters (outside the \<open>try\<close>),
  send the request with \<open>rows=rows\<close>, handle the response.
\<close>

definition iteration :: "state \<Rightarrow> 'a response \<Rightarrow> 'a event list \<times> (error + state)" where
  "iteration s r =
     (case build_params s of
        Inl e \<Rightarrow> ([], Inl e)
      | Inr p \<Rightarrow>
          (case handle_response s r of (evs, res) \<Rightarrow> (Request (rows s) p # evs, res)))"

text \<open>
  The loop \<open>while incomplete\<close> over the responses the environment supplies, one per pass.
  The loop has no bound of its own: when the responses run out while \<open>incomplete\<close> still
  holds, the generator stands at the head of the loop in the state \<open>Pending\<close> carries.
\<close>

fun run :: "state \<Rightarrow> 'a response list \<Rightarrow> 'a event list \<times> outcome" where
  "run s [] = ([], if incomplete s then Pending s else Finished s)"
| "run s (r # rs) =
     (if \<not> incomplete s then ([], Finished s)
      else
        (case iteration s r of
           (evs, Inl e) \<Rightarrow> (evs, Raised e)
         | (evs, Inr s') \<Rightarrow> (case run s' rs of (evs', out) \<Rightarrow> (evs @ evs', out))))"

definition query_all ::
  "int \<Rightarrow> string option \<Rightarrow> int option \<Rightarrow> 'a response list \<Rightarrow> 'a event list \<times> outcome" where
  "query_all batch_size' cursor' max_items' rs = run (query_all_init batch_size' cursor' max_items') rs"

subsection \<open>Reading a run\<close>

fun outcome_state :: "outcome \<Rightarrow> state option" where
  "outcome_state (Finished s) = Some s"
| "outcome_state (Pending s) = Some s"
| "outcome_state (Raised e) = None"

fun yields :: "'a event list \<Rightarrow> 'a list" where
  "yields [] = []"
| "yields (Yield x # evs) = x # yields evs"
| "yields (e # evs) = yields evs"

fun requests :: "'a event list \<Rightarrow> (int \<times> params) list" where
  "requests [] = []"
| "requests (Request k p # evs) = (k, p) # requests evs"
| "requests (e # evs) = requests evs"

fun sleeps :: "'a event list \<Rightarrow> nat list" where
  "sleeps [] = []"
| "sleeps (Sleep t # evs) = t # sleeps evs"
| "sleeps (e # evs) = sleeps evs"

text \<open>The count of records yielded so far, as the code reads it: \<open>progress_bar.n\<close>.\<close>

definition emitted :: "state \<Rightarrow> int" where
  "emitted s = (case progress_bar s of None \<Rightarrow> 0 | Some pb \<Rightarrow> tqdm_n pb)"

subsection \<open>Kinds of responses\<close>

text \<open>
  A call that fails in one of the two ways the loop recovers from: an exception of the
  transport, or a status code other than 200.
\<close>

fun is_failure :: "'a response \<Rightarrow> bool" where
  "is_failure TransportError = True"
| "is_failure (Response status_code body) = (status_code \<noteq> 200)"

subsection \<open>A payload for concrete runs, and the closed form of the specification\<close>

text \<open>A payload of the expected shape with status \<open>ok\<close>, for concrete runs.\<close>

definition ok_payload ::
  "int \<Rightarrow> 'a list \<Rightarrow> string option option \<Rightarrow> query option \<Rightarrow> 'a payload" where
  "ok_payload t xs nc q =
     \<lparr> status = Some ''ok'',
       message = Some \<lparr> total_results = Some t, items = Some xs, next_cursor = nc, query = q \<rparr> \<rparr>"

text \<open>
  The page size the specification gives after \<open>k\<close> consecutive failures, in its words:
  \<open>round(batch_size * 0.75^k)\<close>, with Python's \<open>round\<close> (a tie goes to the even integer).
\<close>

definition py_round :: "rat \<Rightarrow> int" where
  "py_round x =
     (let f = \<lfloor>x\<rfloor>; d = x - of_int f
      in if d < 1 / 2 then f else if 1 / 2 < d then f + 1 else if even f then f else f + 1)"

definition spec_rows :: "int \<Rightarrow> nat \<Rightarrow> int" where
  "spec_rows b k = py_round (of_int b * (3 / 4) ^ k)"

subsection \<open>Good pages and the invariant of the progress bar\<close>

text \<open>
  The payload of a good page: a response with status code 200 whose body is JSON with
  status \<open>ok\<close>, the only kind that reaches line 94.
\<close>

fun page_of :: "'a response \<Rightarrow> 'a payload option" where
  "page_of (Response status_code (Some result)) =
     (if status_code = 200 \<and> status result = Some ''ok'' then Some result else None)"
| "page_of r = None"

text \<open>The first good page among the responses, and the \<open>total-results\<close> a payload reports.\<close>

fun first_ok :: "'a response list \<Rightarrow> 'a payload option" where
  "first_ok [] = None"
| "first_ok (r # rs) = (case page_of r of Some result \<Rightarrow> Some result | None \<Rightarrow> first_ok rs)"

definition reported_total :: "'a payload \<Rightarrow> int option" where
  "reported_total result = (case message result of None \<Rightarrow> None | Some m \<Rightarrow> total_results m)"

text \<open>Every response but a good page whose list of items is empty.\<close>

definition page_nonempty :: "'a response \<Rightarrow> bool" where
  "page_nonempty r = (case page_of r of None \<Rightarrow> True | Some result \<Rightarrow> lookup_items result \<noteq> Inr [])"

text \<open>
  The invariant of the progress bar: when \<open>total\<close> is not negative, the count \<open>n\<close> of
  records yielded lies between 0 and \<open>total\<close>.
\<close>

definition progress_ok :: "state \<Rightarrow> bool" where
  "progress_ok s =
     (case progress_bar s of
        None \<Rightarrow> True
      | Some pb \<Rightarrow> 0 \<le> tqdm_total pb \<longrightarrow> 0 \<le> tqdm_n pb \<and> tqdm_n pb \<le> tqdm_total pb)"

text \<open>The number of good pages among the responses.\<close>

definition good_pages :: "'a response list \<Rightarrow> nat" where
  "good_pages rs = length (filter (\<lambda>r. page_of r \<noteq> None) rs)"

text \<open>
  Responses that make no pass raise: no body that is not JSON under status code 200, and
  every good page has the keys the pass reads (\<open>total-results\<close>, \<open>items\<close>), a truthy
  \<open>next-cursor\<close> when the call is in cursor mode, and no \<open>start-index\<close> to compare when it
  is in offset mode.
\<close>

definition well_formed :: "string option \<Rightarrow> 'a response \<Rightarrow> bool" where
  "well_formed c r =
     (case r of
        TransportError \<Rightarrow> True
      | Response status_code None \<Rightarrow> status_code \<noteq> 200
      | Response status_code (Some result) \<Rightarrow>
          status_code \<noteq> 200 \<or> status result \<noteq> Some ''ok'' \<or>
          (reported_total result \<noteq> None \<and>
           (case lookup_items result of Inl e \<Rightarrow> False | Inr xs \<Rightarrow> True) \<and>
           (if truthy c
            then (case message result of
                    None \<Rightarrow> False
                  | Some msg \<Rightarrow> (case next_cursor msg of None \<Rightarrow> False | Some nc \<Rightarrow> truthy nc))
            else lookup_start_index result = None)))"

text \<open>The position the mode of the call needs: a truthy cursor, or a bound offset.\<close>

definition mode_ok :: "string option \<Rightarrow> state \<Rightarrow> bool" where
  "mode_ok c s = (if truthy c then truthy (cursor s) else \<not> truthy (cursor s) \<and> offset s \<noteq> None)"

section \<open>Facts about one pass and about runs\<close>

lemmas pass_defs = iteration_def handle_response_def recoverable_error_def process_page_def
  init_progress_bar_def lookup_items_def lookup_start_index_def update_position_def
  build_params_def

lemma build_params_frame [simp]:
  "build_params (s\<lparr>successive_errors := k, rows := r\<rparr>) = build_params s"
  by (simp add: build_params_def split: option.splits)

lemma iteration_failure:
  "is_failure r \<Longrightarrow> build_params s = Inr p \<Longrightarrow>
   iteration s r = ([Request (rows s) p, Sleep (2 ^ Suc (successive_errors s))],
                    Inr (s\<lparr>successive_errors := Suc (successive_errors s), rows := shrink (rows s)\<rparr>))"
  by (cases r) (simp_all add: iteration_def handle_response_def recoverable_error_def Let_def)

lemma iteration_not_ok:
  "status result \<noteq> Some ''ok'' \<Longrightarrow> build_params s = Inr p \<Longrightarrow>
   iteration s (Response 200 (Some result)) =
     ([Request (rows s) p], Inr (s\<lparr>successive_errors := 0, rows := batch_size s\<rparr>))"
  by (simp add: iteration_def handle_response_def Let_def)

lemma sleeps_append [simp]: "sleeps (xs @ ys) = sleeps xs @ sleeps ys"
  by (induction xs rule: sleeps.induct) simp_all

lemma requests_append [simp]: "requests (xs @ ys) = requests xs @ requests ys"
  by (induction xs rule: requests.induct) simp_all

lemma yields_append [simp]: "yields (xs @ ys) = yields xs @ yields ys"
  by (induction xs rule: yields.induct) simp_all

lemma yields_map_Yield [simp]: "yields (map Yield xs) = xs"
  by (induction xs) simp_all

subsection \<open>A streak of failures\<close>

text \<open>
  From a state whose request can be built, a run over failed calls only never ends:
  every pass sends the request at the unchanged position, sleeps and shrinks \<open>rows\<close>.
\<close>

lemma run_failures:
  "incomplete s \<Longrightarrow> build_params s = Inr p \<Longrightarrow> \<forall>r\<in>set fs. is_failure r \<Longrightarrow>
   run s fs =
     (concat (map (\<lambda>j. [Request ((shrink ^^ j) (rows s)) p, Sleep (2 ^ (successive_errors s + Suc j))])
                  [0..<length fs]),
      Pending (s\<lparr>successive_errors := successive_errors s + length fs,
                 rows := (shrink ^^ length fs) (rows s)\<rparr>))"
proof (induction fs arbitrary: s)
  case Nil
  then show ?case by simp
next
  case (Cons r fs)
  let ?s1 = "s\<lparr>successive_errors := Suc (successive_errors s), rows := shrink (rows s)\<rparr>"
  have it: "iteration s r = ([Request (rows s) p, Sleep (2 ^ Suc (successive_errors s))], Inr ?s1)"
    using Cons.prems by (simp add: iteration_failure)
  have ih: "run ?s1 fs =
     (concat (map (\<lambda>j. [Request ((shrink ^^ j) (rows ?s1)) p, Sleep (2 ^ (successive_errors ?s1 + Suc j))])
                  [0..<length fs]),
      Pending (?s1\<lparr>successive_errors := successive_errors ?s1 + length fs,
                 rows := (shrink ^^ length fs) (rows ?s1)\<rparr>))"
    using Cons.prems by (intro Cons.IH) simp_all
  have up: "[0..<length (r # fs)] = 0 # map Suc [0..<length fs]"
    by (simp only: length_Cons upt_conv_Cons [OF zero_less_Suc] map_Suc_upt)
  show ?case
    using Cons.prems(1) unfolding up
    by (simp add: it ih funpow_swap1 comp_def del: upt_Suc)
qed

lemma sleeps_failures:
  "sleeps (concat (map (\<lambda>j. [Request (f j) p, Sleep (g j)]) js)) = map g js"
  by (induction js) simp_all

lemma requests_failures:
  "requests (concat (map (\<lambda>j. [Request (f j) p, Sleep (g j)]) js)) = map (\<lambda>j. (f j, p)) js"
  by (induction js) simp_all

subsection \<open>The page size under repeated shrinking\<close>

lemma shrink_nonneg: "0 \<le> r \<Longrightarrow> 0 \<le> shrink r"
  by (simp add: shrink_def)

lemma shrink_less: "0 < r \<Longrightarrow> shrink r < r"
  by (simp add: shrink_def)

lemma shrink_0: "shrink 0 = 0"
  by (simp add: shrink_def)

lemma funpow_shrink_bounds:
  "0 \<le> r \<Longrightarrow> 0 \<le> (shrink ^^ k) r \<and> (shrink ^^ k) r \<le> max 0 (r - int k)"
proof (induction k)
  case 0
  then show ?case by simp
next
  case (Suc k)
  then have ih: "0 \<le> (shrink ^^ k) r" "(shrink ^^ k) r \<le> max 0 (r - int k)"
    by simp_all
  show ?case
  proof (cases "(shrink ^^ k) r = 0")
    case True
    then show ?thesis by (simp add: shrink_0)
  next
    case False
    with ih have "0 < (shrink ^^ k) r" by simp
    then have "shrink ((shrink ^^ k) r) < (shrink ^^ k) r"
      by (rule shrink_less)
    with ih shrink_nonneg [OF ih(1)] show ?thesis by simp
  qed
qed

lemma funpow_shrink_stays_zero:
  "(shrink ^^ k) r = 0 \<Longrightarrow> k \<le> j \<Longrightarrow> (shrink ^^ j) r = 0"
proof (induction j)
  case 0
  then show ?case by simp
next
  case (Suc j)
  then show ?case
    by (cases "k = Suc j") (simp_all add: shrink_0)
qed

lemma rows_zero_threshold:
  assumes "0 < b"
  shows "\<exists>K>0. \<forall>k. ((shrink ^^ k) b = 0) = (K \<le> k)"
proof -
  define K where "K = (LEAST k. (shrink ^^ k) b = 0)"
  have "(shrink ^^ nat b) b = 0"
    using funpow_shrink_bounds [of b "nat b"] assms by simp
  then have K0: "(shrink ^^ K) b = 0"
    unfolding K_def by (rule LeastI)
  have least: "\<And>k. (shrink ^^ k) b = 0 \<Longrightarrow> K \<le> k"
    unfolding K_def by (rule Least_le)
  have "K \<noteq> 0"
    using K0 assms by (cases K) simp_all
  moreover have "\<And>k. ((shrink ^^ k) b = 0) = (K \<le> k)"
    using least funpow_shrink_stays_zero [OF K0] by blast
  ultimately show ?thesis by blast
qed

lemma map_pow_upt: "map (\<lambda>j. 2 * (2::nat) ^ j) [0..<n] = map ((^) 2) [Suc 0..<Suc n]"
  unfolding map_Suc_upt [symmetric] by (simp add: comp_def del: upt_Suc)

subsection \<open>Runs: induction over the responses\<close>

lemma init_params: "\<exists>p. build_params (query_all_init b c m) = Inr p"
  by (cases c) (simp_all add: build_params_def query_all_init_def)

lemma run_induct:
  assumes pass: "\<And>s r evs res. P s \<Longrightarrow> Q r \<Longrightarrow> iteration s r = (evs, res) \<Longrightarrow>
                   (\<forall>e\<in>set evs. G e) \<and> (\<forall>s'. res = Inr s' \<longrightarrow> P s')"
  shows "P s \<Longrightarrow> \<forall>r\<in>set rs. Q r \<Longrightarrow> run s rs = (evs, out) \<Longrightarrow>
         (\<forall>e\<in>set evs. G e) \<and> (\<forall>s'. outcome_state out = Some s' \<longrightarrow> P s')"
proof (induction rs arbitrary: s evs out)
  case Nil
  then show ?case by (auto split: if_splits)
next
  case (Cons r rs)
  show ?case
  proof (cases "incomplete s")
    case False
    with Cons.prems show ?thesis by auto
  next
    case True
    obtain evs1 res where it: "iteration s r = (evs1, res)"
      by (cases "iteration s r")
    from pass [OF Cons.prems(1) _ it] Cons.prems(2)
    have g1: "\<forall>e\<in>set evs1. G e" and p1: "\<And>s'. res = Inr s' \<Longrightarrow> P s'"
      by auto
    show ?thesis
    proof (cases res)
      case (Inl e)
      with Cons.prems(3) True it g1 show ?thesis by auto
    next
      case (Inr s1)
      obtain evs2 out2 where r2: "run s1 rs = (evs2, out2)"
        by (cases "run s1 rs")
      from Cons.IH [OF p1 [OF Inr] _ r2] Cons.prems(2)
      have "(\<forall>e\<in>set evs2. G e) \<and> (\<forall>s'. outcome_state out2 = Some s' \<longrightarrow> P s')"
        by simp
      with Cons.prems(3) True it Inr r2 g1 show ?thesis by auto
    qed
  qed
qed

lemma run_append:
  "run s xs = (evs, Pending s1) \<Longrightarrow> run s (xs @ ys) = (evs @ fst (run s1 ys), snd (run s1 ys))"
proof (induction xs arbitrary: s evs)
  case Nil
  then show ?case by (auto split: if_splits)
next
  case (Cons r xs)
  from Cons.prems have inc: "incomplete s"
    by (auto split: if_splits)
  obtain evs1 res where it: "iteration s r = (evs1, res)"
    by (cases "iteration s r")
  show ?case
  proof (cases res)
    case (Inl e)
    with Cons.prems inc it show ?thesis by simp
  next
    case (Inr s')
    obtain evs2 out2 where r2: "run s' xs = (evs2, out2)"
      by (cases "run s' xs")
    with Cons.prems inc it Inr have out2: "out2 = Pending s1" and evs: "evs = evs1 @ evs2"
      by simp_all
    from Cons.IH [OF r2 [unfolded out2]] inc it Inr evs show ?thesis
      by (simp add: split_beta)
  qed
qed

lemma run_pass:
  "incomplete s \<Longrightarrow> iteration s r = (evs, Inr s') \<Longrightarrow>
   run s (r # rest) = (evs @ fst (run s' rest), snd (run s' rest))"
  by (simp add: split_beta)

lemma run_raise:
  "incomplete s \<Longrightarrow> iteration s r = (evs, Inl e) \<Longrightarrow> run s (r # rest) = (evs, Raised e)"
  by simp

lemma run_done: "\<not> incomplete s \<Longrightarrow> run s rs = ([], Finished s)"
  by (cases rs) simp_all

lemma run_outcome_incomplete:
  "run s rs = (evs, out) \<Longrightarrow>
   (\<forall>s'. out = Pending s' \<longrightarrow> incomplete s') \<and> (\<forall>s'. out = Finished s' \<longrightarrow> \<not> incomplete s')"
proof (induction rs arbitrary: s evs)
  case Nil
  then show ?case by (auto split: if_splits)
next
  case (Cons r rs)
  then show ?case
    by (auto split: if_splits prod.splits sum.splits)
qed

subsection \<open>One pass, by the kind of response\<close>

lemma response_cases:
  obtains (failure) "is_failure r"
  | (not_json) "r = Response 200 None"
  | (not_ok) result where "r = Response 200 (Some result)" "status result \<noteq> Some ''ok''"
  | (page) result where "r = Response 200 (Some result)" "status result = Some ''ok''"
proof (cases r)
  case TransportError
  then show ?thesis using failure by simp
next
  case (Response status_code body)
  then show ?thesis
    using failure not_json not_ok page by (cases body; cases "status_code = 200") auto
qed

lemma init_progress_bar_frame [simp]:
  "init_progress_bar (s\<lparr>successive_errors := k, rows := r\<rparr>) result = init_progress_bar s result"
  by (simp add: init_progress_bar_def split: option.splits)

lemma iteration_Inr_params:
  "iteration s r = (evs, Inr s') \<Longrightarrow> \<exists>p. build_params s = Inr p"
  by (cases "build_params s") (simp_all add: iteration_def)

lemma iteration_not_json:
  "iteration s (Response 200 None) = (evs, res) \<Longrightarrow> \<exists>e. res = Inl e"
  by (auto simp: iteration_def handle_response_def Let_def split: sum.splits)

lemma iteration_page:
  assumes "status result = Some ''ok''"
    and "iteration s (Response 200 (Some result)) = (evs, Inr s')"
  shows "\<exists>p pb all_items s2.
           build_params s = Inr p \<and> init_progress_bar s result = Inr pb \<and>
           lookup_items result = Inr all_items \<and>
           update_position (s\<lparr>successive_errors := 0, rows := batch_size s\<rparr>) result
             (length (py_slice_to all_items (tqdm_total pb - tqdm_n pb))) = Inr s2 \<and>
           evs = Request (rows s) p # map Yield (py_slice_to all_items (tqdm_total pb - tqdm_n pb)) \<and>
           s' = s2\<lparr>progress_bar :=
                     Some (pb\<lparr>tqdm_n := tqdm_n pb +
                                 int (length (py_slice_to all_items (tqdm_total pb - tqdm_n pb)))\<rparr>),
                   incomplete := (py_slice_to all_items (tqdm_total pb - tqdm_n pb) \<noteq> [])\<rparr>"
  using assms
  by (auto simp: iteration_def handle_response_def process_page_def Let_def split: sum.splits)

lemma update_position_frame:
  "update_position s result k = Inr s2 \<Longrightarrow>
   progress_bar s2 = progress_bar s \<and> incomplete s2 = incomplete s \<and>
   max_items s2 = max_items s \<and> batch_size s2 = batch_size s \<and>
   successive_errors s2 = successive_errors s \<and> rows s2 = rows s"
  by (auto simp: update_position_def split: if_splits option.splits)

lemma py_slice_to_nonneg: "0 \<le> k \<Longrightarrow> py_slice_to xs k = take (nat k) xs"
  by (simp add: py_slice_to_def)

lemma init_progress_bar_existing:
  "progress_bar s = Some pb \<Longrightarrow> init_progress_bar s result = Inr pb"
  by (simp add: init_progress_bar_def)

lemma init_progress_bar_fresh:
  "progress_bar s = None \<Longrightarrow> init_progress_bar s result = Inr pb \<Longrightarrow>
   \<exists>t. reported_total result = Some t \<and> tqdm_n pb = 0 \<and>
       tqdm_total pb = (case max_items s of None \<Rightarrow> t | Some k \<Rightarrow> min t k)"
  by (auto simp: init_progress_bar_def reported_total_def split: option.splits)

lemma iteration_cases:
  assumes "iteration s r = (evs, Inr s')"
  obtains (failure) p where "is_failure r" "build_params s = Inr p"
      "evs = [Request (rows s) p, Sleep (2 ^ Suc (successive_errors s))]"
      "s' = s\<lparr>successive_errors := Suc (successive_errors s), rows := shrink (rows s)\<rparr>"
  | (not_ok) p result where "r = Response 200 (Some result)" "status result \<noteq> Some ''ok''"
      "build_params s = Inr p" "evs = [Request (rows s) p]"
      "s' = s\<lparr>successive_errors := 0, rows := batch_size s\<rparr>"
  | (page) p result pb all_items s2 where "r = Response 200 (Some result)"
      "status result = Some ''ok''" "build_params s = Inr p"
      "init_progress_bar s result = Inr pb" "lookup_items result = Inr all_items"
      "update_position (s\<lparr>successive_errors := 0, rows := batch_size s\<rparr>) result
         (length (py_slice_to all_items (tqdm_total pb - tqdm_n pb))) = Inr s2"
      "evs = Request (rows s) p # map Yield (py_slice_to all_items (tqdm_total pb - tqdm_n pb))"
      "s' = s2\<lparr>progress_bar :=
                 Some (pb\<lparr>tqdm_n := tqdm_n pb +
                             int (length (py_slice_to all_items (tqdm_total pb - tqdm_n pb)))\<rparr>),
               incomplete := (py_slice_to all_items (tqdm_total pb - tqdm_n pb) \<noteq> [])\<rparr>"
proof -
  obtain p where p: "build_params s = Inr p"
    using iteration_Inr_params [OF assms] by blast
  show ?thesis
  proof (cases r rule: response_cases)
    case failure
    with iteration_failure [OF failure p] assms p that(1) show ?thesis by simp
  next
    case not_json
    with iteration_not_json assms show ?thesis by blast
  next
    case (not_ok result)
    with iteration_not_ok [OF not_ok(2) p] assms p that(2) show ?thesis by simp
  next
    case (page result)
    from iteration_page [OF page(2) assms [unfolded page(1)]] page that(3) show ?thesis
      by blast
  qed
qed

lemma iteration_emitted:
  assumes "iteration s r = (evs, Inr s')"
  shows "emitted s' = emitted s + int (length (yields evs))"
  using assms
proof (cases rule: iteration_cases)
  case (failure p)
  then show ?thesis by (simp add: emitted_def)
next
  case (not_ok p result)
  then show ?thesis by (simp add: emitted_def)
next
  case (page p result pb all_items s2)
  show ?thesis
  proof (cases "progress_bar s")
    case None
    from init_progress_bar_fresh [OF None page(4)] have "tqdm_n pb = 0" by blast
    with None page(7,8) show ?thesis by (simp add: emitted_def)
  next
    case (Some pb0)
    with page(4) have "pb = pb0" by (simp add: init_progress_bar_existing)
    with Some page(7,8) show ?thesis by (simp add: emitted_def)
  qed
qed

lemma iteration_progress_ok:
  assumes "progress_ok s" and "iteration s r = (evs, Inr s')"
  shows "progress_ok s'"
  using assms(2)
proof (cases rule: iteration_cases)
  case (failure p)
  with assms(1) show ?thesis by (simp add: progress_ok_def)
next
  case (not_ok p result)
  with assms(1) show ?thesis by (simp add: progress_ok_def)
next
  case (page p result pb all_items s2)
  have pb: "0 \<le> tqdm_total pb \<longrightarrow> 0 \<le> tqdm_n pb \<and> tqdm_n pb \<le> tqdm_total pb"
  proof (cases "progress_bar s")
    case None
    from init_progress_bar_fresh [OF None page(4)] show ?thesis by auto
  next
    case (Some pb0)
    with page(4) have "pb = pb0" by (simp add: init_progress_bar_existing)
    with Some assms(1) show ?thesis by (simp add: progress_ok_def)
  qed
  show ?thesis
    using pb unfolding page(8) by (auto simp: progress_ok_def py_slice_to_nonneg)
qed

lemma iteration_total_fixed:
  assumes "progress_bar s = Some pb" and "iteration s r = (evs, Inr s')"
  shows "\<exists>pb'. progress_bar s' = Some pb' \<and> tqdm_total pb' = tqdm_total pb"
  using assms(2)
proof (cases rule: iteration_cases)
  case (failure p)
  with assms(1) show ?thesis by simp
next
  case (not_ok p result)
  with assms(1) show ?thesis by simp
next
  case (page p result pb1 all_items s2)
  from page(4) assms(1) have "pb1 = pb" by (simp add: init_progress_bar_existing)
  with page(8) show ?thesis by simp
qed

lemma iteration_frame:
  assumes "iteration s r = (evs, Inr s')"
  shows "max_items s' = max_items s \<and> batch_size s' = batch_size s"
  using assms
proof (cases rule: iteration_cases)
  case (page p result pb all_items s2)
  from update_position_frame [OF page(6)] page(8) show ?thesis by simp
qed simp_all

lemma page_of_failure: "is_failure r \<Longrightarrow> page_of r = None"
  by (cases r rule: page_of.cases) simp_all

lemma iteration_incomplete:
  assumes "iteration s r = (evs, Inr s')" and "incomplete s"
  shows "incomplete s' = (page_of r = None \<or> yields evs \<noteq> [])"
  using assms(1)
proof (cases rule: iteration_cases)
  case (failure p)
  with assms(2) show ?thesis by (simp add: page_of_failure)
next
  case (not_ok p result)
  with assms(2) show ?thesis by simp
next
  case (page p result pb all_items s2)
  then show ?thesis by simp
qed

subsection \<open>The progress bar along a run\<close>

lemma run_emitted:
  "run s rs = (evs, out) \<Longrightarrow> outcome_state out = Some s' \<Longrightarrow>
   emitted s' = emitted s + int (length (yields evs))"
proof (induction rs arbitrary: s evs out)
  case Nil
  then show ?case by (auto split: if_splits)
next
  case (Cons r rs)
  show ?case
  proof (cases "incomplete s")
    case False
    with Cons.prems show ?thesis by auto
  next
    case True
    obtain evs1 res where it: "iteration s r = (evs1, res)"
      by (cases "iteration s r")
    show ?thesis
    proof (cases res)
      case (Inl e)
      with Cons.prems True it show ?thesis by auto
    next
      case (Inr s1)
      obtain evs2 out2 where r2: "run s1 rs = (evs2, out2)"
        by (cases "run s1 rs")
      with Cons.prems True it Inr have out2: "out2 = out" and evs: "evs = evs1 @ evs2"
        by simp_all
      from Cons.IH [OF r2 [unfolded out2] Cons.prems(2)] iteration_emitted [OF it [unfolded Inr]] evs
      show ?thesis by simp
    qed
  qed
qed

lemma run_progress_ok:
  assumes "progress_ok s" and "run s rs = (evs, out)" and "outcome_state out = Some s'"
  shows "progress_ok s'"
proof -
  have "(\<forall>e\<in>set evs. True) \<and> (\<forall>s'. outcome_state out = Some s' \<longrightarrow> progress_ok s')"
    by (rule run_induct [where P = progress_ok and Q = "\<lambda>r. True" and G = "\<lambda>e. True",
          OF _ assms(1) _ assms(2)])
      (auto intro: iteration_progress_ok)
  with assms(3) show ?thesis by blast
qed

lemma init_facts:
  "progress_ok (query_all_init b c m)" "emitted (query_all_init b c m) = 0"
  "incomplete (query_all_init b c m)" "progress_bar (query_all_init b c m) = None"
  "max_items (query_all_init b c m) = m" "cursor (query_all_init b c m) = c"
  "rows (query_all_init b c m) = b" "batch_size (query_all_init b c m) = b"
  by (simp_all add: query_all_init_def progress_ok_def emitted_def)

lemmas eval_defs = query_all_def query_all_init_def pass_defs shrink_def py_slice_to_def
  ok_payload_def emitted_def Let_def

lemma run_total_fixed:
  assumes "progress_bar s = Some pb" and "run s rs = (evs, out)" and "outcome_state out = Some s'"
  shows "\<exists>pb'. progress_bar s' = Some pb' \<and> tqdm_total pb' = tqdm_total pb"
proof -
  let ?P = "\<lambda>s. \<exists>pb'. progress_bar s = Some pb' \<and> tqdm_total pb' = tqdm_total pb"
  have "(\<forall>e\<in>set evs. True) \<and> (\<forall>s'. outcome_state out = Some s' \<longrightarrow> ?P s')"
  proof (rule run_induct [where P = ?P and Q = "\<lambda>r. True" and G = "\<lambda>e. True", OF _ _ _ assms(2)])
    show "?P s" using assms(1) by simp
  next
    show "\<forall>r\<in>set rs. True" by simp
  next
    fix s r evs res
    assume "?P s" and "iteration s r = (evs, res)"
    then show "(\<forall>e\<in>set evs. True) \<and> (\<forall>s'. res = Inr s' \<longrightarrow> ?P s')"
      using iteration_total_fixed by fastforce
  qed
  with assms(3) show ?thesis by blast
qed

lemma run_total_first:
  "progress_bar s = None \<Longrightarrow> incomplete s \<Longrightarrow> run s rs = (evs, out) \<Longrightarrow>
   outcome_state out = Some s' \<Longrightarrow>
   (case first_ok rs of
      None \<Rightarrow> progress_bar s' = None
    | Some result \<Rightarrow>
        (\<exists>t pb. reported_total result = Some t \<and> progress_bar s' = Some pb \<and>
           tqdm_total pb = (case max_items s of None \<Rightarrow> t | Some k \<Rightarrow> min t k)))"
proof (induction rs arbitrary: s evs out)
  case Nil
  then show ?case by (auto split: if_splits)
next
  case (Cons r rs)
  obtain evs1 res where it: "iteration s r = (evs1, res)"
    by (cases "iteration s r")
  show ?case
  proof (cases res)
    case (Inl e)
    with Cons.prems it show ?thesis by auto
  next
    case (Inr s1)
    obtain evs2 out2 where r2: "run s1 rs = (evs2, out2)"
      by (cases "run s1 rs")
    with Cons.prems it Inr have out2: "out2 = out"
      by simp
    note r2' = r2 [unfolded out2]
    from it Inr have it': "iteration s r = (evs1, Inr s1)" by simp
    from it' show ?thesis
    proof (cases rule: iteration_cases)
      case (failure p)
      then have "progress_bar s1 = None" "incomplete s1" "max_items s1 = max_items s"
        using Cons.prems(1,2) by simp_all
      with Cons.IH [OF _ _ r2' Cons.prems(4)] failure(1) show ?thesis
        by (auto simp: page_of_failure split: option.splits)
    next
      case (not_ok p result)
      then have "progress_bar s1 = None" "incomplete s1" "max_items s1 = max_items s"
        using Cons.prems(1,2) by simp_all
      with Cons.IH [OF _ _ r2' Cons.prems(4)] not_ok(1,2) show ?thesis
        by (auto split: option.splits)
    next
      case (page p result pb all_items s2)
      from init_progress_bar_fresh [OF Cons.prems(1) page(4)]
      obtain t where t: "reported_total result = Some t"
        "tqdm_total pb = (case max_items s of None \<Rightarrow> t | Some k \<Rightarrow> min t k)"
        by blast
      let ?pb = "pb\<lparr>tqdm_n := tqdm_n pb +
                   int (length (py_slice_to all_items (tqdm_total pb - tqdm_n pb)))\<rparr>"
      have "progress_bar s1 = Some ?pb"
        using page(8) by simp
      from run_total_fixed [OF this r2' Cons.prems(4)] t page(1,2) show ?thesis
        by simp
    qed
  qed
qed

lemma run_finished_total:
  assumes "progress_ok s" and "incomplete s" and "\<forall>r\<in>set rs. page_nonempty r"
    and "run s rs = (evs, Finished s')"
  shows "\<exists>pb. progress_bar s' = Some pb \<and> (0 \<le> tqdm_total pb \<longrightarrow> tqdm_n pb = tqdm_total pb)"
proof -
  let ?D = "\<lambda>s. \<not> incomplete s \<longrightarrow>
              (\<exists>pb. progress_bar s = Some pb \<and> (0 \<le> tqdm_total pb \<longrightarrow> tqdm_n pb = tqdm_total pb))"
  let ?P = "\<lambda>s. progress_ok s \<and> ?D s"
  have "(\<forall>e\<in>set evs. True) \<and> (\<forall>t. outcome_state (Finished s') = Some t \<longrightarrow> ?P t)"
  proof (rule run_induct [where P = ?P and Q = page_nonempty and G = "\<lambda>e. True",
        OF _ _ assms(3,4)])
    show "?P s" using assms(1,2) by simp
  next
    fix s r evs res
    assume P: "?P s" and Q: "page_nonempty r" and it: "iteration s r = (evs, res)"
    have "?P s'" if res: "res = Inr s'" for s'
    proof -
      from it res have it': "iteration s r = (evs, Inr s')" by simp
      have ok': "progress_ok s'"
        using iteration_progress_ok [OF _ it'] P by blast
      from it' have "?D s'"
      proof (cases rule: iteration_cases)
        case (failure p)
        with P show ?thesis by simp
      next
        case (not_ok p result)
        with P show ?thesis by simp
      next
        case (page p result pb all_items s2)
        let ?taken = "py_slice_to all_items (tqdm_total pb - tqdm_n pb)"
        have ne: "all_items \<noteq> []"
          using Q page(1,2,5) by (simp add: page_nonempty_def)
        have pb: "0 \<le> tqdm_total pb \<longrightarrow> 0 \<le> tqdm_n pb \<and> tqdm_n pb \<le> tqdm_total pb"
        proof (cases "progress_bar s")
          case None
          from init_progress_bar_fresh [OF None page(4)] show ?thesis by auto
        next
          case (Some pb0)
          with page(4) have "pb = pb0" by (simp add: init_progress_bar_existing)
          with Some P show ?thesis by (simp add: progress_ok_def)
        qed
        have "tqdm_n pb = tqdm_total pb" if "?taken = []" "0 \<le> tqdm_total pb"
        proof -
          from pb that(2) have "0 \<le> tqdm_total pb - tqdm_n pb" by simp
          with that(1) ne have "nat (tqdm_total pb - tqdm_n pb) = 0"
            by (simp add: py_slice_to_nonneg)
          with pb that(2) show ?thesis by simp
        qed
        then show ?thesis
          unfolding page(8) by auto
      qed
      with ok' show ?thesis by simp
    qed
    then show "(\<forall>e\<in>set evs. True) \<and> (\<forall>s'. res = Inr s' \<longrightarrow> ?P s')"
      by simp
  qed
  moreover have "\<not> incomplete s'"
    using run_outcome_incomplete [OF assms(4)] by simp
  ultimately show ?thesis by simp
qed

subsection \<open>Cursor mode and offset mode\<close>

lemma requests_map_Yield [simp]: "requests (map Yield xs) = []"
  by (induction xs) simp_all

lemma in_requests: "(k, p) \<in> set (requests evs) \<longleftrightarrow> Request k p \<in> set evs"
  by (induction evs rule: requests.induct) auto

lemma handle_response_requests:
  "handle_response s r = (evs, res) \<Longrightarrow> requests evs = []"
  by (auto simp: handle_response_def recoverable_error_def process_page_def Let_def
      split: response.splits if_splits option.splits sum.splits)

lemma iteration_events:
  assumes "iteration s r = (evs, res)"
  shows "(\<exists>e. build_params s = Inl e \<and> evs = [] \<and> res = Inl e) \<or>
         (\<exists>p evs'. build_params s = Inr p \<and> evs = Request (rows s) p # evs' \<and> requests evs' = [])"
proof (cases "build_params s")
  case (Inl e)
  with assms show ?thesis by (simp add: iteration_def)
next
  case (Inr p)
  obtain evs' res' where h: "handle_response s r = (evs', res')"
    by (cases "handle_response s r")
  with assms Inr handle_response_requests [OF h] show ?thesis
    by (auto simp: iteration_def)
qed

lemma build_params_cursor_mode:
  "offset s = None \<Longrightarrow> build_params s = Inr p \<Longrightarrow>
   \<exists>nc. p = CursorParam nc \<and> cursor s = Some nc \<and> truthy (cursor s)"
  by (auto simp: build_params_def split: option.splits if_splits)

lemma build_params_unbound:
  "offset s = None \<Longrightarrow> \<not> truthy (cursor s) \<Longrightarrow> build_params s = Inl NameError"
  by (simp add: build_params_def)

lemma build_params_offset_mode:
  "\<not> truthy (cursor s) \<Longrightarrow> build_params s = Inr p \<Longrightarrow>
   \<exists>off. p = OffsetParam off \<and> offset s = Some off"
  by (auto simp: build_params_def split: option.splits)

lemma build_params_offset: "\<not> truthy (cursor s) \<Longrightarrow> offset s = Some off \<Longrightarrow>
   build_params s = Inr (OffsetParam off)"
  by (simp add: build_params_def)

lemma update_position_cursor:
  "truthy (cursor s) \<Longrightarrow> update_position s result k = Inr s2 \<Longrightarrow>
   \<exists>msg nc. message result = Some msg \<and> next_cursor msg = Some nc \<and> s2 = s\<lparr>cursor := nc\<rparr>"
  by (auto simp: update_position_def split: option.splits)

lemma update_position_offset:
  "\<not> truthy (cursor s) \<Longrightarrow> offset s = Some off \<Longrightarrow>
   update_position s result k =
     (if lookup_start_index result = None \<or> lookup_start_index result = Some off
      then Inr (s\<lparr>offset := Some (off + int k)\<rparr>) else Inl AssertionError)"
  by (auto simp: update_position_def split: option.splits)

lemma iteration_cursor_mode:
  assumes "offset s = None" and "iteration s r = (evs, Inr s')"
  shows "offset s' = None"
  using assms(2)
proof (cases rule: iteration_cases)
  case (failure p)
  with assms(1) show ?thesis by simp
next
  case (not_ok p result)
  with assms(1) show ?thesis by simp
next
  case (page p result pb all_items s2)
  from build_params_cursor_mode [OF assms(1) page(3)]
  have "truthy (cursor (s\<lparr>successive_errors := 0, rows := batch_size s\<rparr>))" by auto
  from update_position_cursor [OF this page(6)] page(8) assms(1) show ?thesis by auto
qed

lemma iteration_offset_mode:
  assumes "\<not> truthy (cursor s)" and "iteration s r = (evs, Inr s')"
  shows "cursor s' = cursor s \<and> (\<exists>off. offset s' = Some off)"
proof -
  obtain p where p: "build_params s = Inr p"
    using iteration_Inr_params [OF assms(2)] by blast
  from build_params_offset_mode [OF assms(1) p] obtain off where off: "offset s = Some off"
    by blast
  from assms(2) show ?thesis
  proof (cases rule: iteration_cases)
    case (failure p)
    with off show ?thesis by simp
  next
    case (not_ok p result)
    with off show ?thesis by simp
  next
    case (page p result pb all_items s2)
    let ?s1 = "s\<lparr>successive_errors := 0, rows := batch_size s\<rparr>"
    have "\<not> truthy (cursor ?s1)" "offset ?s1 = Some off"
      using assms(1) off by simp_all
    from page(6) [unfolded update_position_offset [OF this]] page(8) show ?thesis
      by (auto split: if_splits)
  qed
qed

lemma run_cursor_mode:
  assumes "offset s = None" and "run s rs = (evs, out)"
  shows "(\<forall>kp\<in>set (requests evs). \<exists>nc. snd kp = CursorParam nc) \<and>
         (\<forall>s'. outcome_state out = Some s' \<longrightarrow> offset s' = None)"
proof -
  let ?G = "\<lambda>e. \<forall>k p. e = Request k p \<longrightarrow> (\<exists>nc. p = CursorParam nc)"
  have "(\<forall>e\<in>set evs. ?G e) \<and> (\<forall>s'. outcome_state out = Some s' \<longrightarrow> offset s' = None)"
  proof (rule run_induct [where P = "\<lambda>s. offset s = None" and Q = "\<lambda>r. True" and G = ?G,
        OF _ assms(1) _ assms(2)])
    show "\<forall>r\<in>set rs. True" by simp
  next
    fix s r evs res
    assume off: "offset s = None" and it: "iteration s r = (evs, res)"
    from iteration_events [OF it] build_params_cursor_mode [OF off]
    have "\<forall>e\<in>set evs. ?G e"
      by (auto simp: in_requests [symmetric])
    moreover have "\<forall>s'. res = Inr s' \<longrightarrow> offset s' = None"
      using iteration_cursor_mode [OF off] it by auto
    ultimately show "(\<forall>e\<in>set evs. ?G e) \<and> (\<forall>s'. res = Inr s' \<longrightarrow> offset s' = None)"
      by blast
  qed
  then show ?thesis
    by (auto simp: in_requests)
qed

lemma run_offset_mode:
  assumes "\<not> truthy c" and "cursor s = c" and "run s rs = (evs, out)"
  shows "(\<forall>kp\<in>set (requests evs). \<exists>off. snd kp = OffsetParam off) \<and>
         (\<forall>s'. outcome_state out = Some s' \<longrightarrow> cursor s' = c)"
proof -
  let ?G = "\<lambda>e. \<forall>k p. e = Request k p \<longrightarrow> (\<exists>off. p = OffsetParam off)"
  have "(\<forall>e\<in>set evs. ?G e) \<and> (\<forall>s'. outcome_state out = Some s' \<longrightarrow> cursor s' = c)"
  proof (rule run_induct [where P = "\<lambda>s. cursor s = c" and Q = "\<lambda>r. True" and G = ?G,
        OF _ assms(2) _ assms(3)])
    show "\<forall>r\<in>set rs. True" by simp
  next
    fix s r evs res
    assume c: "cursor s = c" and it: "iteration s r = (evs, res)"
    from c assms(1) have nt: "\<not> truthy (cursor s)" by simp
    from iteration_events [OF it] build_params_offset_mode [OF nt]
    have "\<forall>e\<in>set evs. ?G e"
      by (auto simp: in_requests [symmetric])
    moreover have "\<forall>s'. res = Inr s' \<longrightarrow> cursor s' = c"
      using iteration_offset_mode [OF nt] it c by auto
    ultimately show "(\<forall>e\<in>set evs. ?G e) \<and> (\<forall>s'. res = Inr s' \<longrightarrow> cursor s' = c)"
      by blast
  qed
  then show ?thesis
    by (auto simp: in_requests)
qed

lemma run_first_request:
  assumes "incomplete s" and "build_params s = Inr p" and "run s (r # rs) = (evs, out)"
  shows "\<exists>evs'. evs = Request (rows s) p # evs'"
proof -
  obtain evs1 res where it: "iteration s r = (evs1, res)"
    by (cases "iteration s r")
  from iteration_events [OF it] assms(2) obtain evs1' where "evs1 = Request (rows s) p # evs1'"
    by auto
  with assms(1,3) it show ?thesis
    by (cases res) (auto split: prod.splits)
qed

lemma run_batch_size:
  assumes "run s rs = (evs, out)" and "outcome_state out = Some s'"
  shows "batch_size s' = batch_size s"
proof -
  have "(\<forall>e\<in>set evs. True) \<and> (\<forall>s'. outcome_state out = Some s' \<longrightarrow> batch_size s' = batch_size s)"
    by (rule run_induct [where P = "\<lambda>t. batch_size t = batch_size s" and Q = "\<lambda>r. True"
          and G = "\<lambda>e. True", OF _ _ _ assms(1)])
      (auto dest: iteration_frame)
  with assms(2) show ?thesis by blast
qed

lemma reach_cursor_mode:
  assumes "truthy c" and "query_all b c m rs = (evs, out)" and "outcome_state out = Some s"
  shows "offset s = None"
proof -
  have "offset (query_all_init b c m) = None"
    using assms(1) by (simp add: query_all_init_def)
  from run_cursor_mode [OF this assms(2) [unfolded query_all_def]] assms(3) show ?thesis
    by blast
qed

lemma iteration_raises_NameError:
  "offset s = None \<Longrightarrow> \<not> truthy (cursor s) \<Longrightarrow> iteration s r = ([], Inl NameError)"
  by (simp add: iteration_def build_params_unbound)

lemma reach_offset_mode:
  assumes "\<not> truthy c" and "query_all b c m rs = (evs, out)" and "outcome_state out = Some s"
  shows "cursor s = c \<and> (\<exists>off. offset s = Some off)"
proof -
  let ?s0 = "query_all_init b c m"
  from assms(2) have run0: "run ?s0 rs = (evs, out)"
    by (simp add: query_all_def)
  let ?P = "\<lambda>s. cursor s = c \<and> (\<exists>off. offset s = Some off)"
  have "(\<forall>e\<in>set evs. True) \<and> (\<forall>s'. outcome_state out = Some s' \<longrightarrow> ?P s')"
  proof (rule run_induct [where P = ?P and Q = "\<lambda>r. True" and G = "\<lambda>e. True", OF _ _ _ run0])
    show "?P ?s0" using assms(1) by (simp add: query_all_init_def)
  next
    show "\<forall>r\<in>set rs. True" by simp
  next
    fix s r evs res
    assume "?P s" and "iteration s r = (evs, res)"
    then show "(\<forall>e\<in>set evs. True) \<and> (\<forall>s'. res = Inr s' \<longrightarrow> ?P s')"
      using iteration_offset_mode [of s r evs] assms(1) by auto
  qed
  with assms(3) show ?thesis by blast
qed

lemma iteration_page_eq:
  assumes "status result = Some ''ok''" and "build_params s = Inr p"
    and "init_progress_bar s result = Inr pb" and "lookup_items result = Inr all_items"
  shows "iteration s (Response 200 (Some result)) =
     (Request (rows s) p # map Yield (py_slice_to all_items (tqdm_total pb - tqdm_n pb)),
      case update_position (s\<lparr>successive_errors := 0, rows := batch_size s\<rparr>) result
             (length (py_slice_to all_items (tqdm_total pb - tqdm_n pb))) of
        Inl e \<Rightarrow> Inl e
      | Inr s2 \<Rightarrow>
          Inr (s2\<lparr>progress_bar :=
                    Some (pb\<lparr>tqdm_n := tqdm_n pb +
                               int (length (py_slice_to all_items (tqdm_total pb - tqdm_n pb)))\<rparr>),
                  incomplete := (py_slice_to all_items (tqdm_total pb - tqdm_n pb) \<noteq> [])\<rparr>))"
  using assms by (simp add: iteration_def handle_response_def process_page_def Let_def)

subsection \<open>Runs that raise nothing, and runs that end\<close>

lemma mode_ok_params: "mode_ok c s \<Longrightarrow> \<exists>p. build_params s = Inr p"
  by (cases "cursor s") (auto simp: mode_ok_def build_params_def split: if_splits)

lemma mode_ok_frame [simp]:
  "mode_ok c (s\<lparr>successive_errors := k, rows := r\<rparr>) = mode_ok c s"
  by (simp add: mode_ok_def)

lemma init_progress_bar_total:
  "reported_total result \<noteq> None \<Longrightarrow> \<exists>pb. init_progress_bar s result = Inr pb"
  by (auto simp: init_progress_bar_def reported_total_def split: option.splits)

lemma pass_no_raise:
  assumes "well_formed c r" and "mode_ok c s"
  shows "\<exists>evs s'. iteration s r = (evs, Inr s') \<and> mode_ok c s'"
proof -
  obtain p where p: "build_params s = Inr p"
    using mode_ok_params [OF assms(2)] by blast
  show ?thesis
  proof (cases r rule: response_cases)
    case failure
    from iteration_failure [OF failure p] assms(2) show ?thesis by simp
  next
    case not_json
    with assms(1) show ?thesis by (simp add: well_formed_def)
  next
    case (not_ok result)
    from iteration_not_ok [OF not_ok(2) p] not_ok(1) assms(2) show ?thesis by simp
  next
    case (page result)
    let ?s1 = "s\<lparr>successive_errors := 0, rows := batch_size s\<rparr>"
    from assms(1) page have wf: "reported_total result \<noteq> None"
      "case lookup_items result of Inl e \<Rightarrow> False | Inr xs \<Rightarrow> True"
      "if truthy c
       then (case message result of
               None \<Rightarrow> False
             | Some msg \<Rightarrow> (case next_cursor msg of None \<Rightarrow> False | Some nc \<Rightarrow> truthy nc))
       else lookup_start_index result = None"
      by (simp_all add: well_formed_def)
    from init_progress_bar_total [OF wf(1)] obtain pb where pb: "init_progress_bar s result = Inr pb"
      by blast
    from wf(2) obtain all_items where its: "lookup_items result = Inr all_items"
      by (cases "lookup_items result") simp_all
    let ?k = "length (py_slice_to all_items (tqdm_total pb - tqdm_n pb))"
    have "\<exists>s2. update_position ?s1 result ?k = Inr s2 \<and> mode_ok c s2"
    proof (cases "truthy c")
      case True
      with wf(3) obtain msg nc where "message result = Some msg" "next_cursor msg = Some nc" "truthy nc"
        by (auto split: option.splits)
      with True assms(2) show ?thesis
        by (simp add: update_position_def mode_ok_def)
    next
      case False
      with assms(2) obtain off where "\<not> truthy (cursor ?s1)" "offset ?s1 = Some off"
        by (auto simp: mode_ok_def)
      from update_position_offset [OF this, of result ?k] False wf(3)
      have "update_position ?s1 result ?k = Inr (?s1\<lparr>offset := Some (off + int ?k)\<rparr>)"
        by simp
      moreover have "mode_ok c (?s1\<lparr>offset := Some (off + int ?k)\<rparr>)"
        using False assms(2) by (simp add: mode_ok_def)
      ultimately show ?thesis by blast
    qed
    then obtain s2 where s2: "update_position ?s1 result ?k = Inr s2" "mode_ok c s2"
      by blast
    from iteration_page_eq [OF page(2) p pb its] s2 page(1) show ?thesis
      by (simp add: mode_ok_def)
  qed
qed

lemma run_no_raise:
  "mode_ok c s \<Longrightarrow> \<forall>r\<in>set rs. well_formed c r \<Longrightarrow> \<exists>s'. outcome_state (snd (run s rs)) = Some s'"
proof (induction rs arbitrary: s)
  case Nil
  then show ?case by simp
next
  case (Cons r rs)
  show ?case
  proof (cases "incomplete s")
    case False
    then show ?thesis by simp
  next
    case True
    from pass_no_raise [of c r s] Cons.prems obtain evs s1
      where it: "iteration s r = (evs, Inr s1)" and ok: "mode_ok c s1"
      by auto
    from Cons.IH [OF ok] Cons.prems(2) obtain s' where "outcome_state (snd (run s1 rs)) = Some s'"
      by auto
    with True it show ?thesis
      by (simp add: split_beta)
  qed
qed

lemma good_pages_Cons:
  "good_pages (r # rs) = (if page_of r = None then good_pages rs else Suc (good_pages rs))"
  by (simp add: good_pages_def)

lemma run_finishes:
  "progress_bar s = Some pb \<Longrightarrow> 0 \<le> tqdm_total pb \<Longrightarrow> progress_ok s \<Longrightarrow> incomplete s \<Longrightarrow>
   \<forall>r\<in>set rs. page_nonempty r \<Longrightarrow> nat (tqdm_total pb - tqdm_n pb) < good_pages rs \<Longrightarrow>
   run s rs = (evs, out) \<Longrightarrow> outcome_state out = Some s' \<Longrightarrow> out = Finished s'"
proof (induction rs arbitrary: s pb evs)
  case Nil
  then show ?case by (simp add: good_pages_def)
next
  case (Cons r rs)
  obtain evs1 res where it: "iteration s r = (evs1, res)"
    by (cases "iteration s r")
  show ?case
  proof (cases res)
    case (Inl e)
    with Cons.prems it show ?thesis by auto
  next
    case (Inr s1)
    obtain evs2 out2 where r2: "run s1 rs = (evs2, out2)"
      by (cases "run s1 rs")
    with Cons.prems(4,7) it Inr have out2: "out2 = out"
      by simp
    note r2' = r2 [unfolded out2]
    from it Inr have it': "iteration s r = (evs1, Inr s1)" by simp
    have ok1: "progress_ok s1"
      by (rule iteration_progress_ok [OF Cons.prems(3) it'])
    from Cons.prems(5) have ne: "\<forall>r\<in>set rs. page_nonempty r" and ner: "page_nonempty r"
      by simp_all
    from it' show ?thesis
    proof (cases rule: iteration_cases)
      case (failure p)
      then have "progress_bar s1 = Some pb" "incomplete s1" "good_pages (r # rs) = good_pages rs"
        using Cons.prems(1,4) by (simp_all add: good_pages_Cons page_of_failure)
      with Cons.IH [OF _ Cons.prems(2) ok1 _ ne _ r2' Cons.prems(8)] Cons.prems(6)
      show ?thesis by simp
    next
      case (not_ok p result)
      then have "progress_bar s1 = Some pb" "incomplete s1" "good_pages (r # rs) = good_pages rs"
        using Cons.prems(1,4) by (simp_all add: good_pages_Cons)
      with Cons.IH [OF _ Cons.prems(2) ok1 _ ne _ r2' Cons.prems(8)] Cons.prems(6)
      show ?thesis by simp
    next
      case (page p result pb1 all_items s2)
      let ?taken = "py_slice_to all_items (tqdm_total pb1 - tqdm_n pb1)"
      let ?pb' = "pb1\<lparr>tqdm_n := tqdm_n pb1 + int (length ?taken)\<rparr>"
      from page(4) Cons.prems(1) have pb1: "pb1 = pb"
        by (simp add: init_progress_bar_existing)
      from Cons.prems(1,2,3) have n: "0 \<le> tqdm_n pb" "tqdm_n pb \<le> tqdm_total pb"
        by (simp_all add: progress_ok_def)
      have taken: "?taken = take (nat (tqdm_total pb - tqdm_n pb)) all_items"
        using n pb1 by (simp add: py_slice_to_nonneg)
      have nonempty: "all_items \<noteq> []"
        using ner page(1,2,5) by (simp add: page_nonempty_def)
      have gp: "good_pages (r # rs) = Suc (good_pages rs)"
        using page(1,2) by (simp add: good_pages_Cons)
      have pbs1: "progress_bar s1 = Some ?pb'"
        using page(8) by simp
      show ?thesis
      proof (cases "?taken = []")
        case True
        with page(8) have "\<not> incomplete s1" by simp
        from run_done [OF this, of rs] r2' Cons.prems(8) show ?thesis by simp
      next
        case False
        with page(8) have inc1: "incomplete s1" by simp
        from False have l1: "1 \<le> int (length ?taken)"
          by (cases ?taken) simp_all
        from False taken have pos: "0 < nat (tqdm_total pb - tqdm_n pb)"
          by (cases "nat (tqdm_total pb - tqdm_n pb)") simp_all
        have "tqdm_total ?pb' - tqdm_n ?pb' = tqdm_total pb - tqdm_n pb - int (length ?taken)"
          by (simp add: pb1)
        with l1 pos Cons.prems(6) [unfolded gp]
        have "nat (tqdm_total ?pb' - tqdm_n ?pb') < good_pages rs"
          by linarith
        from Cons.IH [OF pbs1 _ ok1 inc1 ne this r2' Cons.prems(8)] Cons.prems(2) pb1
        show ?thesis by simp
      qed
    qed
  qed
qed

lemma run_finishes_first:
  "progress_bar s = None \<Longrightarrow> incomplete s \<Longrightarrow> \<forall>r\<in>set rs. page_nonempty r \<Longrightarrow>
   run s rs = (evs, out) \<Longrightarrow> outcome_state out = Some s' \<Longrightarrow>
   progress_bar s' = Some pb' \<Longrightarrow> 0 \<le> tqdm_total pb' \<Longrightarrow> nat (tqdm_total pb') < good_pages rs \<Longrightarrow>
   out = Finished s'"
proof (induction rs arbitrary: s evs)
  case Nil
  then show ?case by (simp add: good_pages_def)
next
  case (Cons r rs)
  obtain evs1 res where it: "iteration s r = (evs1, res)"
    by (cases "iteration s r")
  show ?case
  proof (cases res)
    case (Inl e)
    with Cons.prems it show ?thesis by auto
  next
    case (Inr s1)
    obtain evs2 out2 where r2: "run s1 rs = (evs2, out2)"
      by (cases "run s1 rs")
    with Cons.prems(2,4) it Inr have out2: "out2 = out"
      by simp
    note r2' = r2 [unfolded out2]
    from it Inr have it': "iteration s r = (evs1, Inr s1)" by simp
    from Cons.prems(3) have ne: "\<forall>r\<in>set rs. page_nonempty r" and ner: "page_nonempty r"
      by simp_all
    from it' show ?thesis
    proof (cases rule: iteration_cases)
      case (failure p)
      then have "progress_bar s1 = None" "incomplete s1" "good_pages (r # rs) = good_pages rs"
        using Cons.prems(1,2) by (simp_all add: good_pages_Cons page_of_failure)
      with Cons.IH [OF _ _ ne r2' Cons.prems(5,6,7)] Cons.prems(8)
      show ?thesis by simp
    next
      case (not_ok p result)
      then have "progress_bar s1 = None" "incomplete s1" "good_pages (r # rs) = good_pages rs"
        using Cons.prems(1,2) by (simp_all add: good_pages_Cons)
      with Cons.IH [OF _ _ ne r2' Cons.prems(5,6,7)] Cons.prems(8)
      show ?thesis by simp
    next
      case (page p result pb1 all_items s2)
      let ?taken = "py_slice_to all_items (tqdm_total pb1 - tqdm_n pb1)"
      let ?pb = "pb1\<lparr>tqdm_n := tqdm_n pb1 + int (length ?taken)\<rparr>"
      from init_progress_bar_fresh [OF Cons.prems(1) page(4)] have n0: "tqdm_n pb1 = 0"
        by blast
      have pbs1: "progress_bar s1 = Some ?pb"
        using page(8) by simp
      from run_total_fixed [OF pbs1 r2' Cons.prems(5)] Cons.prems(6)
      have tot: "tqdm_total pb1 = tqdm_total pb'"
        by simp
      have ok1: "progress_ok s1"
        using iteration_progress_ok [OF _ it'] Cons.prems(1) by (simp add: progress_ok_def)
      have taken: "?taken = take (nat (tqdm_total pb')) all_items"
        using n0 tot Cons.prems(7) by (simp add: py_slice_to_nonneg)
      have nonempty: "all_items \<noteq> []"
        using ner page(1,2,5) by (simp add: page_nonempty_def)
      have gp: "good_pages (r # rs) = Suc (good_pages rs)"
        using page(1,2) by (simp add: good_pages_Cons)
      show ?thesis
      proof (cases "?taken = []")
        case True
        with page(8) have "\<not> incomplete s1" by simp
        from run_done [OF this, of rs] r2' Cons.prems(5) show ?thesis by simp
      next
        case False
        with page(8) have inc1: "incomplete s1" by simp
        from False have l1: "1 \<le> int (length ?taken)"
          by (cases ?taken) simp_all
        from False taken have pos: "0 < nat (tqdm_total pb')"
          by (cases "nat (tqdm_total pb')") simp_all
        have "tqdm_total ?pb - tqdm_n ?pb = tqdm_total pb' - int (length ?taken)"
          by (simp add: tot n0)
        with l1 pos Cons.prems(8) [unfolded gp]
        have lt: "nat (tqdm_total ?pb - tqdm_n ?pb) < good_pages rs"
          by linarith
        have "0 \<le> tqdm_total ?pb"
          using tot Cons.prems(7) by simp
        from run_finishes [OF pbs1 this ok1 inc1 ne lt r2' Cons.prems(5)]
        show ?thesis .
      qed
    qed
  qed
qed

section \<open>The claims\<close>

subsection \<open>C1: a payload that is not \<open>ok\<close>\<close>

text \<open>
  Claim C1, as amended. When the call returns HTTP 200 and the status of the payload is
  not \<open>ok\<close>, the pass sends its request, yields nothing, does not sleep, and leaves cursor
  and offset alone, so the retry is at the same position. It does not leave
  \<open>successive_errors\<close> and \<open>rows\<close> alone: lines 82 and 83 have already reset them to 0 and
  to \<open>batch_size\<close>, so the retried request carries \<open>rows = batch_size\<close>.
\<close>

theorem not_ok_retry:
  fixes result :: "'a payload"
  assumes "status result \<noteq> Some ''ok''" and "build_params s = Inr p"
  shows "\<exists>s'. iteration s (Response 200 (Some result)) = ([Request (rows s) p], Inr s') \<and>
              s' = s\<lparr>successive_errors := 0, rows := batch_size s\<rparr> \<and>
              cursor s' = cursor s \<and> offset s' = offset s \<and>
              (\<forall>r :: 'a response. hd (fst (iteration s' r)) = Request (batch_size s) p)"
proof -
  let ?s' = "s\<lparr>successive_errors := 0, rows := batch_size s\<rparr>"
  have "hd (fst (iteration ?s' r)) = Request (batch_size s) p" for r :: "'a response"
    using assms(2) by (simp add: iteration_def split: prod.splits)
  with iteration_not_ok [OF assms] show ?thesis by simp
qed

theorem not_ok_retry_witness:
  "iteration \<lparr>batch_size = 20, max_items = None, progress_bar = None, incomplete = True,
               successive_errors = 1, rows = 15, cursor = Some ''*'', offset = None\<rparr>
        (Response 200 (Some \<lparr>status = Some ''error'', message = (None :: nat message option)\<rparr>)) =
     ([Request 15 (CursorParam ''*'')],
      Inr \<lparr>batch_size = 20, max_items = None, progress_bar = None, incomplete = True,
             successive_errors = 0, rows = 20, cursor = Some ''*'', offset = None\<rparr>)"
proof -
  let ?s = "\<lparr>batch_size = 20, max_items = None, progress_bar = None, incomplete = True,
               successive_errors = 1, rows = 15, cursor = Some ''*'', offset = None\<rparr>"
  let ?result = "\<lparr>status = Some ''error'', message = (None :: nat message option)\<rparr>"
  have st: "status ?result \<noteq> Some ''ok''" by simp
  have bp: "build_params ?s = Inr (CursorParam ''*'')" by (simp add: build_params_def)
  from not_ok_retry [OF st bp] show ?thesis by simp
qed

text \<open>
  The claim as stated (no reset, identical parameters) fails after one failure: the
  not-\<open>ok\<close> page is requested with \<open>rows = 15\<close> and \<open>successive_errors = 1\<close>, the pass
  resets them to 20 and 0, and the retry asks for 20 rows.
\<close>

theorem not_ok_resets_counterexample:
  "query_all 20 None None [Response 500 (None :: nat payload option)] =
     ([Request 20 (OffsetParam 0), Sleep 2],
      Pending \<lparr>batch_size = 20, max_items = None, progress_bar = None, incomplete = True,
               successive_errors = 1, rows = 15, cursor = None, offset = Some 0\<rparr>) \<and>
   iteration \<lparr>batch_size = 20, max_items = None, progress_bar = None, incomplete = True,
               successive_errors = 1, rows = 15, cursor = None, offset = Some 0\<rparr>
        (Response 200 (Some \<lparr>status = Some ''error'', message = (None :: nat message option)\<rparr>)) =
     ([Request 15 (OffsetParam 0)],
      Inr \<lparr>batch_size = 20, max_items = None, progress_bar = None, incomplete = True,
             successive_errors = 0, rows = 20, cursor = None, offset = Some 0\<rparr>) \<and>
   requests (fst (iteration \<lparr>batch_size = 20, max_items = None, progress_bar = None, incomplete = True,
             successive_errors = 0, rows = 20, cursor = None, offset = Some 0\<rparr>
        (TransportError :: nat response))) = [(20, OffsetParam 0)]"
  by (simp add: query_all_def query_all_init_def pass_defs shrink_def Let_def)

subsection \<open>C2: page size and sleep along a streak of failures\<close>

text \<open>
  Claim C2, as amended. From a state with no failure pending (\<open>successive_errors = 0\<close>,
  \<open>rows = batch_size\<close>: the initial state, and the state after every HTTP 200), \<open>k\<close>
  consecutive failures (exceptions of the transport or status codes other than 200, in
  any mix) leave \<open>rows\<close> at the \<open>k\<close>-fold truncating shrink of \<open>batch_size\<close>, that is
  \<open>int(0.75 * ...)\<close> applied \<open>k\<close> times, and the sleep after the \<open>k\<close>-th failure is \<open>2^k\<close>.
\<close>

theorem failure_streak:
  assumes "incomplete s" and "build_params s = Inr p"
    and "successive_errors s = 0" and "rows s = batch_size s"
    and "\<forall>r\<in>set fs. is_failure r"
  shows "\<exists>evs. run s fs =
           (evs, Pending (s\<lparr>successive_errors := length fs,
                            rows := (shrink ^^ length fs) (batch_size s)\<rparr>)) \<and>
         sleeps evs = map (\<lambda>k. 2 ^ k) [1..<Suc (length fs)]"
  using run_failures [OF assms(1,2,5)] assms(3,4)
  by (simp add: sleeps_failures map_pow_upt del: upt_Suc)

theorem failure_streak_witness:
  "run (query_all_init 20 None None)
     [TransportError, Response 500 None, TransportError, Response 503 None, TransportError :: nat response] =
   ([Request 20 (OffsetParam 0), Sleep 2, Request 15 (OffsetParam 0), Sleep 4,
     Request 11 (OffsetParam 0), Sleep 8, Request 8 (OffsetParam 0), Sleep 16,
     Request 6 (OffsetParam 0), Sleep 32],
    Pending \<lparr>batch_size = 20, max_items = None, progress_bar = None, incomplete = True,
             successive_errors = 5, rows = 4, cursor = None, offset = Some 0\<rparr>)"
proof -
  let ?fs = "[TransportError, Response 500 None, TransportError, Response 503 None, TransportError :: nat response]"
  have "\<forall>r\<in>set ?fs. is_failure r" by simp
  from failure_streak [of "query_all_init 20 None None" "OffsetParam 0" ?fs, OF _ _ _ _ this]
  have "\<exists>evs. run (query_all_init 20 None None) ?fs =
           (evs, Pending ((query_all_init 20 None None)\<lparr>successive_errors := length ?fs,
                            rows := (shrink ^^ length ?fs) (batch_size (query_all_init 20 None None))\<rparr>)) \<and>
         sleeps evs = map (\<lambda>k. 2 ^ k) [1..<Suc (length ?fs)]"
    by (simp add: query_all_init_def build_params_def)
  then show ?thesis
    by (simp add: query_all_init_def pass_defs shrink_def Let_def)
qed

text \<open>
  The closed form \<open>round(batch_size * 0.75^k)\<close> of the claim is not what the code
  computes: for \<open>batch_size = 20\<close> and \<open>k = 5\<close> the code has \<open>rows = 4\<close> (20, 15, 11, 8, 6, 4)
  and the closed form is \<open>round(4.746...) = 5\<close>.
\<close>

theorem closed_form_counterexample:
  "snd (query_all 20 None None
     [TransportError, TransportError, TransportError, TransportError, TransportError :: nat response]) =
    Pending \<lparr>batch_size = 20, max_items = None, progress_bar = None, incomplete = True,
             successive_errors = 5, rows = 4, cursor = None, offset = Some 0\<rparr> \<and>
   spec_rows 20 5 = 5"
proof -
  have "spec_rows 20 5 = 5" by code_simp
  then show ?thesis
    by (simp add: query_all_def query_all_init_def pass_defs shrink_def Let_def)
qed

subsection \<open>C3: the count of yielded records\<close>

text \<open>
  Claim C3, as amended. Take any run of \<open>query_all\<close> that stands at the head of the loop,
  and a pass that completes (raises nothing), in a run whose \<open>total\<close>, the minimum of the
  reported \<open>total-results\<close> and of \<open>max_items\<close>, is not negative. Then the count of records
  yielded, which is \<open>progress_bar.n\<close>, grows by the number of items the pass yields and
  never exceeds \<open>total\<close>; a good page yields the first \<open>remaining = total - emitted\<close> of its
  items, so at most \<open>remaining\<close>; the count grows strictly exactly when the page yields an
  item; the run goes on after every pass but a good page that yields nothing, and there it
  ends as \<open>Finished\<close>, not as an error, whatever responses would follow; and a good page
  yields nothing exactly when \<open>emitted = total\<close> or its item list is empty.
\<close>

theorem emitted_invariant:
  assumes "query_all b c m rs = (evs0, Pending s)"
    and "iteration s r = (evs, Inr s')"
    and "\<forall>pb. progress_bar s' = Some pb \<longrightarrow> 0 \<le> tqdm_total pb"
  shows "emitted s = int (length (yields evs0)) \<and>
         emitted s' = emitted s + int (length (yields evs)) \<and>
         (\<forall>pb. progress_bar s' = Some pb \<longrightarrow> emitted s' \<le> tqdm_total pb) \<and>
         incomplete s' = (page_of r = None \<or> yields evs \<noteq> []) \<and>
         (incomplete s' \<longrightarrow> query_all b c m (rs @ [r]) = (evs0 @ evs, Pending s')) \<and>
         (\<not> incomplete s' \<longrightarrow>
            (\<forall>rest. query_all b c m (rs @ r # rest) = (evs0 @ evs, Finished s'))) \<and>
         (\<forall>result. page_of r = Some result \<longrightarrow>
            (\<exists>pb all_items. progress_bar s' = Some pb \<and> lookup_items result = Inr all_items \<and>
               yields evs = take (nat (tqdm_total pb - emitted s)) all_items \<and>
               int (length (yields evs)) \<le> tqdm_total pb - emitted s \<and>
               (yields evs \<noteq> []) = (emitted s < emitted s') \<and>
               (yields evs = []) = (emitted s = tqdm_total pb \<or> all_items = [])))"
proof -
  let ?s0 = "query_all_init b c m"
  from assms(1) have run0: "run ?s0 rs = (evs0, Pending s)"
    by (simp add: query_all_def)
  have ok: "progress_ok s"
    using run_progress_ok [OF init_facts(1) run0] by simp
  have inc: "incomplete s"
    using run_outcome_incomplete [OF run0] by simp
  have em0: "emitted s = int (length (yields evs0))"
    using run_emitted [OF run0] by (simp add: init_facts)
  have em: "emitted s' = emitted s + int (length (yields evs))"
    by (rule iteration_emitted [OF assms(2)])
  have ok': "progress_ok s'"
    by (rule iteration_progress_ok [OF ok assms(2)])
  have bound: "emitted s' \<le> tqdm_total pb" if "progress_bar s' = Some pb" for pb
    using ok' that assms(3) by (simp add: progress_ok_def emitted_def)
  have inc': "incomplete s' = (page_of r = None \<or> yields evs \<noteq> [])"
    by (rule iteration_incomplete [OF assms(2) inc])
  have cont: "query_all b c m (rs @ [r]) = (evs0 @ evs, Pending s')" if "incomplete s'"
  proof -
    have "run s [r] = (evs, Pending s')"
      using inc assms(2) that by simp
    with run_append [OF run0, of "[r]"] show ?thesis
      by (simp add: query_all_def del: run.simps)
  qed
  have stop: "query_all b c m (rs @ r # rest) = (evs0 @ evs, Finished s')"
    if "\<not> incomplete s'" for rest
  proof -
    have "run s (r # rest) = (evs, Finished s')"
      unfolding run_pass [OF inc assms(2), of rest] run_done [OF that, of rest] by simp
    with run_append [OF run0, of "r # rest"] show ?thesis
      by (simp add: query_all_def del: run.simps)
  qed
  have page: "\<exists>pb all_items. progress_bar s' = Some pb \<and> lookup_items result = Inr all_items \<and>
               yields evs = take (nat (tqdm_total pb - emitted s)) all_items \<and>
               int (length (yields evs)) \<le> tqdm_total pb - emitted s \<and>
               (yields evs \<noteq> []) = (emitted s < emitted s') \<and>
               (yields evs = []) = (emitted s = tqdm_total pb \<or> all_items = [])"
    if "page_of r = Some result" for result
    using assms(2)
  proof (cases rule: iteration_cases)
    case (failure p)
    with that show ?thesis by (simp add: page_of_failure)
  next
    case (not_ok p result')
    with that show ?thesis by simp
  next
    case (page p result' pb1 all_items s2)
    let ?taken = "py_slice_to all_items (tqdm_total pb1 - tqdm_n pb1)"
    let ?pb = "pb1\<lparr>tqdm_n := tqdm_n pb1 + int (length ?taken)\<rparr>"
    from that page(1,2) have res: "result' = result" by simp
    have pbs': "progress_bar s' = Some ?pb"
      using page(8) by simp
    have n: "tqdm_n pb1 = emitted s"
    proof (cases "progress_bar s")
      case None
      from init_progress_bar_fresh [OF None page(4)] None show ?thesis
        by (auto simp: emitted_def)
    next
      case (Some pb0)
      with page(4) show ?thesis by (simp add: init_progress_bar_existing emitted_def)
    qed
    have tot: "0 \<le> tqdm_total pb1"
      using assms(3) pbs' by simp
    have le: "emitted s \<le> tqdm_total pb1"
    proof (cases "progress_bar s")
      case None
      with tot show ?thesis by (simp add: emitted_def)
    next
      case (Some pb0)
      with page(4) have "pb1 = pb0" by (simp add: init_progress_bar_existing)
      with Some ok tot show ?thesis by (simp add: progress_ok_def emitted_def)
    qed
    have taken: "?taken = take (nat (tqdm_total pb1 - emitted s)) all_items"
      using le n by (simp add: py_slice_to_nonneg)
    have ys: "yields evs = ?taken"
      using page(7) by simp
    have empty: "(yields evs = []) = (emitted s = tqdm_total pb1 \<or> all_items = [])"
      using le unfolding ys taken by auto
    have len: "int (length (yields evs)) \<le> tqdm_total pb1 - emitted s"
      using le unfolding ys taken by simp
    have strict: "(yields evs \<noteq> []) = (emitted s < emitted s')"
      unfolding em by simp
    have "progress_bar s' = Some ?pb \<and> lookup_items result = Inr all_items \<and>
          yields evs = take (nat (tqdm_total ?pb - emitted s)) all_items \<and>
          int (length (yields evs)) \<le> tqdm_total ?pb - emitted s \<and>
          (yields evs \<noteq> []) = (emitted s < emitted s') \<and>
          (yields evs = []) = (emitted s = tqdm_total ?pb \<or> all_items = [])"
      using pbs' page(5) res ys [unfolded taken] empty len strict by simp
    then show ?thesis by blast
  qed
  from em0 em bound inc' cont stop page show ?thesis by blast
qed

text \<open>
  With \<open>batch_size = 2\<close>, \<open>max_items = 3\<close> and pages of two items: the second page yields
  one of its two items (\<open>remaining = 1\<close>), the third yields none and ends the run.
\<close>

theorem emitted_invariant_witness:
  "query_all 2 None (Some 3)
     [Response 200 (Some (ok_payload 10 [10, 11 :: nat] None (Some \<lparr>start_index = Some 0\<rparr>)))] =
     ([Request 2 (OffsetParam 0), Yield 10, Yield 11],
      Pending \<lparr>batch_size = 2, max_items = Some 3,
               progress_bar = Some \<lparr>tqdm_total = 3, tqdm_n = 2\<rparr>, incomplete = True,
               successive_errors = 0, rows = 2, cursor = None, offset = Some 2\<rparr>) \<and>
   iteration \<lparr>batch_size = 2, max_items = Some 3,
               progress_bar = Some \<lparr>tqdm_total = 3, tqdm_n = 2\<rparr>, incomplete = True,
               successive_errors = 0, rows = 2, cursor = None, offset = Some 2\<rparr>
     (Response 200 (Some (ok_payload 10 [12, 13 :: nat] None (Some \<lparr>start_index = Some 2\<rparr>)))) =
     ([Request 2 (OffsetParam 2), Yield 12],
      Inr \<lparr>batch_size = 2, max_items = Some 3,
             progress_bar = Some \<lparr>tqdm_total = 3, tqdm_n = 3\<rparr>, incomplete = True,
             successive_errors = 0, rows = 2, cursor = None, offset = Some 3\<rparr>) \<and>
   iteration \<lparr>batch_size = 2, max_items = Some 3,
               progress_bar = Some \<lparr>tqdm_total = 3, tqdm_n = 3\<rparr>, incomplete = True,
               successive_errors = 0, rows = 2, cursor = None, offset = Some 3\<rparr>
     (Response 200 (Some (ok_payload 10 [13, 14 :: nat] None (Some \<lparr>start_index = Some 3\<rparr>)))) =
     ([Request 2 (OffsetParam 3)],
      Inr \<lparr>batch_size = 2, max_items = Some 3,
             progress_bar = Some \<lparr>tqdm_total = 3, tqdm_n = 3\<rparr>, incomplete = False,
             successive_errors = 0, rows = 2, cursor = None, offset = Some 3\<rparr>) \<and>
   query_all 2 None (Some 3)
     [Response 200 (Some (ok_payload 10 [10, 11 :: nat] None (Some \<lparr>start_index = Some 0\<rparr>))),
      Response 200 (Some (ok_payload 10 [12, 13 :: nat] None (Some \<lparr>start_index = Some 2\<rparr>))),
      Response 200 (Some (ok_payload 10 [13, 14 :: nat] None (Some \<lparr>start_index = Some 3\<rparr>))),
      TransportError] =
     ([Request 2 (OffsetParam 0), Yield 10, Yield 11, Request 2 (OffsetParam 2), Yield 12,
       Request 2 (OffsetParam 3)],
      Finished \<lparr>batch_size = 2, max_items = Some 3,
                progress_bar = Some \<lparr>tqdm_total = 3, tqdm_n = 3\<rparr>, incomplete = False,
                successive_errors = 0, rows = 2, cursor = None, offset = Some 3\<rparr>)"
proof -
  let ?p1 = "Response 200 (Some (ok_payload 10 [10, 11 :: nat] None (Some \<lparr>start_index = Some 0\<rparr>)))"
  let ?p2 = "Response 200 (Some (ok_payload 10 [12, 13 :: nat] None (Some \<lparr>start_index = Some 2\<rparr>)))"
  let ?p3 = "Response 200 (Some (ok_payload 10 [13, 14 :: nat] None (Some \<lparr>start_index = Some 3\<rparr>)))"
  let ?s1 = "\<lparr>batch_size = 2, max_items = Some 3,
               progress_bar = Some \<lparr>tqdm_total = 3, tqdm_n = 2\<rparr>, incomplete = True,
               successive_errors = 0, rows = 2, cursor = None, offset = Some 2\<rparr>"
  let ?s2 = "\<lparr>batch_size = 2, max_items = Some 3,
               progress_bar = Some \<lparr>tqdm_total = 3, tqdm_n = 3\<rparr>, incomplete = True,
               successive_errors = 0, rows = 2, cursor = None, offset = Some 3\<rparr>"
  let ?s3 = "\<lparr>batch_size = 2, max_items = Some 3,
               progress_bar = Some \<lparr>tqdm_total = 3, tqdm_n = 3\<rparr>, incomplete = False,
               successive_errors = 0, rows = 2, cursor = None, offset = Some 3\<rparr>"
  have r1: "query_all 2 None (Some 3) [?p1] =
              ([Request 2 (OffsetParam 0), Yield 10, Yield 11], Pending ?s1)"
    by (simp add: eval_defs)
  have i2: "iteration ?s1 ?p2 = ([Request 2 (OffsetParam 2), Yield 12], Inr ?s2)"
    by (simp add: eval_defs)
  have t2: "\<forall>pb. progress_bar ?s2 = Some pb \<longrightarrow> 0 \<le> tqdm_total pb"
    by simp
  have r2: "query_all 2 None (Some 3) ([?p1] @ [?p2]) =
              ([Request 2 (OffsetParam 0), Yield 10, Yield 11] @ [Request 2 (OffsetParam 2), Yield 12],
               Pending ?s2)"
    using emitted_invariant [OF r1 i2 t2] by simp
  have i3: "iteration ?s2 ?p3 = ([Request 2 (OffsetParam 3)], Inr ?s3)"
    by (simp add: eval_defs)
  have t3: "\<forall>pb. progress_bar ?s3 = Some pb \<longrightarrow> 0 \<le> tqdm_total pb"
    by simp
  have "\<forall>rest. query_all 2 None (Some 3) (([?p1] @ [?p2]) @ ?p3 # rest) =
          (([Request 2 (OffsetParam 0), Yield 10, Yield 11] @ [Request 2 (OffsetParam 2), Yield 12]) @
           [Request 2 (OffsetParam 3)], Finished ?s3)"
    using emitted_invariant [OF r2 i3 t3] by simp
  then have r3: "query_all 2 None (Some 3) [?p1, ?p2, ?p3, TransportError] =
          ([Request 2 (OffsetParam 0), Yield 10, Yield 11, Request 2 (OffsetParam 2), Yield 12,
            Request 2 (OffsetParam 3)], Finished ?s3)"
    by simp
  from r1 i2 i3 r3 show ?thesis by simp
qed

text \<open>
  The claim as stated, for every run, fails when \<open>total\<close> is negative: with
  \<open>max_items = -1\<close> line 98 sets \<open>total = -1\<close>, \<open>remaining\<close> is \<open>-1\<close>, and the slice
  \<open>items[:-1]\<close> of line 103 takes all but the last item. Two records are yielded against a
  total of \<open>-1\<close> and a \<open>remaining\<close> of \<open>-1\<close>, and the run goes on.
\<close>

theorem negative_total_counterexample:
  "query_all 20 None (Some (- 1))
     [Response 200 (Some (ok_payload 10 [1, 2, 3 :: nat] None None))] =
     ([Request 20 (OffsetParam 0), Yield 1, Yield 2],
      Pending \<lparr>batch_size = 20, max_items = Some (- 1),
               progress_bar = Some \<lparr>tqdm_total = - 1, tqdm_n = 2\<rparr>, incomplete = True,
               successive_errors = 0, rows = 20, cursor = None, offset = Some 2\<rparr>)"
  by (simp add: eval_defs)

subsection \<open>C4: the total is set once, from the first good page\<close>

text \<open>
  Claim C4. In every state a run of \<open>query_all\<close> reaches there is no progress bar, and so
  no \<open>total\<close>, as long as no response was a good page (HTTP 200, status \<open>ok\<close>); from the
  first good page on, \<open>total\<close> is the \<open>total-results\<close> that page reported, clamped to
  \<open>min(total-results, max_items)\<close> when \<open>max_items\<close> is given, whatever the later pages
  report. For a \<open>total\<close> that is not negative, a run that has raised nothing has yielded at
  most \<open>total\<close> records; if no good page came with an empty item list, it has yielded
  exactly \<open>total\<close> records once it has ended, and it has ended as soon as the responses
  hold more than \<open>total\<close> good pages (each takes at least one record until \<open>total\<close> is
  reached, and the next one takes none and ends the loop). Responses that are well formed
  make no pass raise. So with \<open>max_items = 50\<close> and \<open>total-results = 1000\<close> the run yields
  exactly 50 records and then stops.
\<close>

theorem total_set_once:
  assumes "query_all b c m rs = (evs, out)"
  shows "(\<forall>s. outcome_state out = Some s \<longrightarrow>
            (case first_ok rs of
               None \<Rightarrow> progress_bar s = None
             | Some result \<Rightarrow>
                 (\<exists>t pb. reported_total result = Some t \<and> progress_bar s = Some pb \<and>
                    tqdm_total pb = (case m of None \<Rightarrow> t | Some k \<Rightarrow> min t k) \<and>
                    (0 \<le> tqdm_total pb \<longrightarrow> int (length (yields evs)) \<le> tqdm_total pb) \<and>
                    (0 \<le> tqdm_total pb \<and> out = Finished s \<and> (\<forall>r\<in>set rs. page_nonempty r) \<longrightarrow>
                       int (length (yields evs)) = tqdm_total pb) \<and>
                    (0 \<le> tqdm_total pb \<and> (\<forall>r\<in>set rs. page_nonempty r) \<and>
                     nat (tqdm_total pb) < good_pages rs \<longrightarrow> out = Finished s)))) \<and>
         ((\<forall>r\<in>set rs. well_formed c r) \<longrightarrow> (\<exists>s. outcome_state out = Some s))"
proof -
  let ?s0 = "query_all_init b c m"
  from assms(1) have run0: "run ?s0 rs = (evs, out)"
    by (simp add: query_all_def)
  have part1: "case first_ok rs of
               None \<Rightarrow> progress_bar s = None
             | Some result \<Rightarrow>
                 (\<exists>t pb. reported_total result = Some t \<and> progress_bar s = Some pb \<and>
                    tqdm_total pb = (case m of None \<Rightarrow> t | Some k \<Rightarrow> min t k) \<and>
                    (0 \<le> tqdm_total pb \<longrightarrow> int (length (yields evs)) \<le> tqdm_total pb) \<and>
                    (0 \<le> tqdm_total pb \<and> out = Finished s \<and> (\<forall>r\<in>set rs. page_nonempty r) \<longrightarrow>
                       int (length (yields evs)) = tqdm_total pb) \<and>
                    (0 \<le> tqdm_total pb \<and> (\<forall>r\<in>set rs. page_nonempty r) \<and>
                     nat (tqdm_total pb) < good_pages rs \<longrightarrow> out = Finished s))"
    if os: "outcome_state out = Some s" for s
  proof -
    note first = run_total_first [OF init_facts(4) init_facts(3) run0 os, unfolded init_facts]
    show ?thesis
    proof (cases "first_ok rs")
      case None
      with first show ?thesis by simp
    next
      case (Some result)
      with first obtain t pb where t: "reported_total result = Some t" "progress_bar s = Some pb"
        "tqdm_total pb = (case m of None \<Rightarrow> t | Some k \<Rightarrow> min t k)"
        by auto
      have em: "emitted s = int (length (yields evs))"
        using run_emitted [OF run0 os] by (simp add: init_facts)
      have le: "int (length (yields evs)) \<le> tqdm_total pb" if "0 \<le> tqdm_total pb"
        using run_progress_ok [OF init_facts(1) run0 os] t(2) that em
        by (simp add: progress_ok_def emitted_def)
      have eq: "int (length (yields evs)) = tqdm_total pb"
        if "0 \<le> tqdm_total pb" "out = Finished s" "\<forall>r\<in>set rs. page_nonempty r"
      proof -
        from run_finished_total [OF init_facts(1) init_facts(3) that(3) run0 [unfolded that(2)]] t(2) that(1)
        have "tqdm_n pb = tqdm_total pb" by simp
        with em t(2) show ?thesis
          by (simp add: emitted_def)
      qed
      have fin: "out = Finished s"
        if "0 \<le> tqdm_total pb" "\<forall>r\<in>set rs. page_nonempty r" "nat (tqdm_total pb) < good_pages rs"
        by (rule run_finishes_first [OF init_facts(4) init_facts(3) that(2) run0 os t(2) that(1,3)])
      from Some t le eq fin show ?thesis by simp
    qed
  qed
  have part2: "\<exists>s. outcome_state out = Some s" if "\<forall>r\<in>set rs. well_formed c r"
  proof -
    have "mode_ok c ?s0"
      by (simp add: mode_ok_def query_all_init_def)
    from run_no_raise [OF this that] run0 show ?thesis by simp
  qed
  from part1 part2 show ?thesis by blast
qed

text \<open>
  \<open>max_items = 50\<close>, \<open>total-results = 1000\<close>, a failed call and then pages of 25 items: the
  run ends and has yielded exactly 50 records.
\<close>

theorem total_set_once_witness:
  "(\<exists>s. snd (query_all 25 None (Some 50)
       (Response 503 None # Response 200 (Some (ok_payload 1000 [0..<25] None None)) #
        replicate 50 (Response 200 (Some (ok_payload 1000 [0..<25] None None))))) = Finished s) \<and>
   length (yields (fst (query_all 25 None (Some 50)
       (Response 503 None # Response 200 (Some (ok_payload 1000 [0..<25] None None)) #
        replicate 50 (Response 200 (Some (ok_payload 1000 [0..<25] None None))))))) = 50"
proof -
  define p :: "nat payload" where "p = ok_payload 1000 [0..<25] None None"
  define rs where "rs = Response 503 None # Response 200 (Some p) # replicate 50 (Response 200 (Some p))"
  define evs where "evs = fst (query_all 25 None (Some 50) rs)"
  define out where "out = snd (query_all 25 None (Some 50) rs)"
  have run: "query_all 25 None (Some 50) rs = (evs, out)"
    by (simp add: evs_def out_def)
  have ok: "page_of (Response 200 (Some p)) = Some p"
    by (simp add: p_def ok_payload_def)
  have wf: "\<forall>r\<in>set rs. well_formed None r"
    by (simp add: rs_def p_def well_formed_def ok_payload_def reported_total_def lookup_items_def
        lookup_start_index_def)
  have ne: "\<forall>r\<in>set rs. page_nonempty r"
    by (simp add: rs_def p_def page_nonempty_def ok_payload_def lookup_items_def)
  have first: "first_ok rs = Some p"
    by (simp add: rs_def p_def ok_payload_def)
  have gp: "good_pages rs = 51"
    by (simp add: rs_def p_def good_pages_def ok_payload_def filter_replicate)
  have rt: "reported_total p = Some 1000"
    by (simp add: p_def ok_payload_def reported_total_def)
  note T = total_set_once [OF run]
  from T wf obtain s where os: "outcome_state out = Some s"
    by blast
  from T [THEN conjunct1, rule_format, OF os] first rt ne gp
  have "out = Finished s \<and> length (yields evs) = 50"
    by auto
  then show ?thesis
    unfolding evs_def out_def rs_def p_def by blast
qed

subsection \<open>C5: the offset and the start index\<close>

text \<open>
  Claim C5. In offset mode, take a good page that has the keys the pass reads before it
  updates the position (\<open>total-results\<close> when the bar is still to be made, and \<open>items\<close>).
  The pass requests it at the current offset and yields the items it takes. If the
  payload has no \<open>start-index\<close> (the key or one above it is absent), or has one equal to
  the offset of the request, the pass completes and the offset has advanced by the number
  of items taken. If it has a \<open>start-index\<close> that differs, the pass raises
  \<open>AssertionError\<close> and the run ends with that error, whatever responses would follow.
\<close>

theorem offset_advances:
  fixes result :: "'a payload"
  assumes "\<not> truthy c"
    and "query_all b c m rs = (evs0, Pending s)"
    and "status result = Some ''ok''"
    and "init_progress_bar s result = Inr pb"
    and "lookup_items result = Inr all_items"
  shows "\<exists>off evs res.
           offset s = Some off \<and>
           iteration s (Response 200 (Some result)) = (evs, res) \<and>
           requests evs = [(rows s, OffsetParam off)] \<and>
           yields evs = py_slice_to all_items (tqdm_total pb - tqdm_n pb) \<and>
           (if lookup_start_index result = None \<or> lookup_start_index result = Some off
            then \<exists>s'. res = Inr s' \<and> offset s' = Some (off + int (length (yields evs))) \<and>
                      cursor s' = c
            else res = Inl AssertionError \<and>
                 (\<forall>rest. query_all b c m (rs @ Response 200 (Some result) # rest) =
                            (evs0 @ evs, Raised AssertionError)))"
proof -
  let ?r = "Response 200 (Some result)"
  let ?s1 = "s\<lparr>successive_errors := 0, rows := batch_size s\<rparr>"
  let ?taken = "py_slice_to all_items (tqdm_total pb - tqdm_n pb)"
  from assms(2) have run0: "run (query_all_init b c m) rs = (evs0, Pending s)"
    by (simp add: query_all_def)
  from reach_offset_mode [OF assms(1,2)] obtain off where cur: "cursor s = c"
    and off: "offset s = Some off"
    by auto
  have nt: "\<not> truthy (cursor s)"
    using cur assms(1) by simp
  have inc: "incomplete s"
    using run_outcome_incomplete [OF run0] by simp
  have p: "build_params s = Inr (OffsetParam off)"
    by (rule build_params_offset [OF nt off])
  have up: "update_position ?s1 result (length ?taken) =
     (if lookup_start_index result = None \<or> lookup_start_index result = Some off
      then Inr (?s1\<lparr>offset := Some (off + int (length ?taken))\<rparr>) else Inl AssertionError)"
    using nt off by (intro update_position_offset) simp_all
  note it = iteration_page_eq [OF assms(3) p assms(4,5), unfolded up]
  show ?thesis
  proof (cases "lookup_start_index result = None \<or> lookup_start_index result = Some off")
    case True
    with it off cur show ?thesis by simp
  next
    case False
    with it have it': "iteration s ?r = (Request (rows s) (OffsetParam off) # map Yield ?taken,
        Inl AssertionError)"
      by simp
    have "query_all b c m (rs @ ?r # rest) =
            (evs0 @ Request (rows s) (OffsetParam off) # map Yield ?taken, Raised AssertionError)"
      for rest
      using run_append [OF run0, of "?r # rest"] run_raise [OF inc it', of rest]
      by (simp add: query_all_def del: run.simps)
    with False it' off show ?thesis by simp
  qed
qed

text \<open>
  At offset 2: a page that reports \<open>start-index = 2\<close> moves the offset to 4; a page that
  reports \<open>start-index = 3\<close> aborts the run (the first page, with no \<open>query\<close> key, passed).
\<close>

theorem offset_advances_witness:
  "iteration \<lparr>batch_size = 2, max_items = None,
               progress_bar = Some \<lparr>tqdm_total = 10, tqdm_n = 2\<rparr>, incomplete = True,
               successive_errors = 0, rows = 2, cursor = None, offset = Some 2\<rparr>
     (Response 200 (Some (ok_payload 10 [3, 4 :: nat] None (Some \<lparr>start_index = Some 2\<rparr>)))) =
     ([Request 2 (OffsetParam 2), Yield 3, Yield 4],
      Inr \<lparr>batch_size = 2, max_items = None,
             progress_bar = Some \<lparr>tqdm_total = 10, tqdm_n = 4\<rparr>, incomplete = True,
             successive_errors = 0, rows = 2, cursor = None, offset = Some 4\<rparr>) \<and>
   query_all 2 None None
     [Response 200 (Some (ok_payload 10 [1, 2 :: nat] None None)),
      Response 200 (Some (ok_payload 10 [3, 4 :: nat] None (Some \<lparr>start_index = Some 3\<rparr>))),
      TransportError] =
     ([Request 2 (OffsetParam 0), Yield 1, Yield 2, Request 2 (OffsetParam 2), Yield 3, Yield 4],
      Raised AssertionError)"
proof -
  let ?good = "ok_payload 10 [3, 4 :: nat] None (Some \<lparr>start_index = Some 2\<rparr>)"
  let ?bad = "ok_payload 10 [3, 4 :: nat] None (Some \<lparr>start_index = Some 3\<rparr>)"
  let ?pb = "\<lparr>tqdm_total = 10, tqdm_n = 2\<rparr>"
  let ?s = "\<lparr>batch_size = 2, max_items = None,
               progress_bar = Some ?pb, incomplete = True,
               successive_errors = 0, rows = 2, cursor = None, offset = Some 2\<rparr>"
  have f: "\<not> truthy None" by simp
  have r1: "query_all 2 None None [Response 200 (Some (ok_payload 10 [1, 2 :: nat] None None))] =
              ([Request 2 (OffsetParam 0), Yield 1, Yield 2], Pending ?s)"
    by (simp add: eval_defs)
  have ok: "status ?good = Some ''ok''" "status ?bad = Some ''ok''"
    by (simp_all add: ok_payload_def)
  have pb: "init_progress_bar ?s ?good = Inr ?pb" "init_progress_bar ?s ?bad = Inr ?pb"
    by (simp_all add: init_progress_bar_def)
  have its: "lookup_items ?good = Inr [3, 4]" "lookup_items ?bad = Inr [3, 4]"
    by (simp_all add: lookup_items_def ok_payload_def)
  have si: "lookup_start_index ?good = Some 2" "lookup_start_index ?bad = Some 3"
    by (simp_all add: lookup_start_index_def ok_payload_def)
  from offset_advances [OF f r1 ok(1) pb(1) its(1)] si(1)
  have good: "\<exists>evs s'. iteration ?s (Response 200 (Some ?good)) = (evs, Inr s') \<and>
                offset s' = Some (2 + int (length (yields evs)))"
    by auto
  from offset_advances [OF f r1 ok(2) pb(2) its(2)] si(2)
  have bad: "\<exists>evs. \<forall>rest. query_all 2 None None
               ([Response 200 (Some (ok_payload 10 [1, 2 :: nat] None None))] @
                Response 200 (Some ?bad) # rest) =
               ([Request 2 (OffsetParam 0), Yield 1, Yield 2] @ evs, Raised AssertionError)"
    by auto
  have "iteration ?s (Response 200 (Some ?good)) =
     ([Request 2 (OffsetParam 2), Yield 3, Yield 4],
      Inr \<lparr>batch_size = 2, max_items = None,
             progress_bar = Some \<lparr>tqdm_total = 10, tqdm_n = 4\<rparr>, incomplete = True,
             successive_errors = 0, rows = 2, cursor = None, offset = Some 4\<rparr>)"
    by (simp add: eval_defs)
  moreover have "query_all 2 None None
     [Response 200 (Some (ok_payload 10 [1, 2 :: nat] None None)), Response 200 (Some ?bad),
      TransportError] =
     ([Request 2 (OffsetParam 0), Yield 1, Yield 2, Request 2 (OffsetParam 2), Yield 3, Yield 4],
      Raised AssertionError)"
    by (simp add: eval_defs)
  ultimately show ?thesis
    using good bad by simp
qed

subsection \<open>C6: the cursor of the next request\<close>

text \<open>
  Claim C6. In cursor mode, after a good page that the pass handled to its end, whatever
  request the following pass sends carries as its cursor the \<open>next-cursor\<close> value of that
  page (and \<open>rows = batch_size\<close>): with cursor \<open>'*'\<close> at the call and \<open>next-cursor = 'abc'\<close> in
  the first response, the second request uses cursor \<open>'abc'\<close>.
\<close>

theorem cursor_follows_next_cursor:
  fixes result :: "'a payload"
  assumes "truthy c"
    and "query_all b c m rs = (evs0, Pending s)"
    and "status result = Some ''ok''"
    and "iteration s (Response 200 (Some result)) = (evs, Inr s')"
    and "iteration s' r' = (evs', res')"
    and "requests evs' \<noteq> []"
  shows "\<exists>msg nc. message result = Some msg \<and> next_cursor msg = Some (Some nc) \<and>
           requests evs' = [(b, CursorParam nc)]"
proof -
  have off: "offset s = None"
    using reach_cursor_mode [OF assms(1,2)] by simp
  have bs: "batch_size s = b"
    using run_batch_size [OF assms(2) [unfolded query_all_def]] by (simp add: init_facts)
  have off': "offset s' = None"
    by (rule iteration_cursor_mode [OF off assms(4)])
  from iteration_events [OF assms(5)] assms(6)
  obtain p evs'' where p: "build_params s' = Inr p" "evs' = Request (rows s') p # evs''"
    "requests evs'' = []"
    by auto
  from build_params_cursor_mode [OF off' p(1)] obtain nc where nc: "p = CursorParam nc"
    "cursor s' = Some nc"
    by blast
  from assms(4) show ?thesis
  proof (cases rule: iteration_cases)
    case (failure q)
    with assms(3) show ?thesis by simp
  next
    case (not_ok q result')
    with assms(3) show ?thesis by simp
  next
    case (page q result' pb all_items s2)
    let ?s1 = "s\<lparr>successive_errors := 0, rows := batch_size s\<rparr>"
    from page(1) have res: "result' = result" by simp
    from build_params_cursor_mode [OF off page(3)] have "truthy (cursor ?s1)" by auto
    from update_position_cursor [OF this page(6)] res
    obtain msg nc' where msg: "message result = Some msg" "next_cursor msg = Some nc'"
      "s2 = ?s1\<lparr>cursor := nc'\<rparr>"
      by blast
    from msg(3) page(8) nc(2) have "nc' = Some nc" "rows s' = batch_size s"
      by simp_all
    with msg(1,2) p(2,3) nc(1) bs show ?thesis by simp
  qed
qed

text \<open>The scenario of the claim, followed by a failed call so that a second request is seen.\<close>

theorem cursor_follows_next_cursor_witness:
  "query_all 20 (Some ''*'') None
     [Response 200 (Some (ok_payload 100 [1, 2 :: nat] (Some (Some ''abc'')) None)), TransportError] =
     ([Request 20 (CursorParam ''*''), Yield 1, Yield 2, Request 20 (CursorParam ''abc''), Sleep 2],
      Pending \<lparr>batch_size = 20, max_items = None,
               progress_bar = Some \<lparr>tqdm_total = 100, tqdm_n = 2\<rparr>, incomplete = True,
               successive_errors = 1, rows = 15, cursor = Some ''abc'', offset = None\<rparr>)"
proof -
  let ?page = "ok_payload 100 [1, 2 :: nat] (Some (Some ''abc'')) None"
  let ?s1 = "\<lparr>batch_size = 20, max_items = None,
               progress_bar = Some \<lparr>tqdm_total = 100, tqdm_n = 2\<rparr>, incomplete = True,
               successive_errors = 0, rows = 20, cursor = Some ''abc'', offset = None\<rparr>"
  have t: "truthy (Some ''*'')" by simp
  have r0: "query_all 20 (Some ''*'') None ([] :: nat response list) =
              ([], Pending (query_all_init 20 (Some ''*'') None))"
    by (simp add: query_all_def query_all_init_def)
  have ok: "status ?page = Some ''ok''"
    by (simp add: ok_payload_def)
  have i1: "iteration (query_all_init 20 (Some ''*'') None) (Response 200 (Some ?page)) =
              ([Request 20 (CursorParam ''*''), Yield 1, Yield 2], Inr ?s1)"
    by (simp add: eval_defs)
  have i2: "iteration ?s1 (TransportError :: nat response) =
              (fst (iteration ?s1 (TransportError :: nat response)),
               snd (iteration ?s1 (TransportError :: nat response)))"
    by simp
  have ne: "requests (fst (iteration ?s1 (TransportError :: nat response))) \<noteq> []"
    by (simp add: eval_defs)
  from cursor_follows_next_cursor [OF t r0 ok i1 i2 ne]
  have "requests (fst (iteration ?s1 (TransportError :: nat response))) = [(20, CursorParam ''abc'')]"
    by (simp add: ok_payload_def)
  then show ?thesis
    by (simp add: eval_defs)
qed

subsection \<open>C7: the pagination mode is chosen at the call and never changes\<close>

text \<open>
  Claim C7. A call with a non-empty \<open>cursor\<close> runs in cursor mode: every request the run
  sends carries a cursor and no offset, the first one the caller's cursor, and the offset
  stays unbound in every state the run reaches. A call with no cursor (\<open>None\<close> or the
  empty string) runs in offset mode: every request carries an offset and no cursor, the
  first one offset 0, and the cursor keeps the caller's value in every state the run
  reaches. So within one run only one of the two positions ever advances.
\<close>

theorem mode_fixed:
  assumes "query_all b c m rs = (evs, out)"
  shows "if truthy c
         then (\<forall>kp\<in>set (requests evs). \<exists>nc. snd kp = CursorParam nc) \<and>
              (\<forall>s. outcome_state out = Some s \<longrightarrow> offset s = None) \<and>
              (rs \<noteq> [] \<longrightarrow> (\<exists>c0. c = Some c0 \<and> hd (requests evs) = (b, CursorParam c0)))
         else (\<forall>kp\<in>set (requests evs). \<exists>off. snd kp = OffsetParam off) \<and>
              (\<forall>s. outcome_state out = Some s \<longrightarrow> cursor s = c \<and> (\<exists>off. offset s = Some off)) \<and>
              (rs \<noteq> [] \<longrightarrow> hd (requests evs) = (b, OffsetParam 0))"
proof -
  let ?s0 = "query_all_init b c m"
  from assms have run0: "run ?s0 rs = (evs, out)"
    by (simp add: query_all_def)
  show ?thesis
  proof (cases "truthy c")
    case True
    then obtain c0 where c0: "c = Some c0" "c0 \<noteq> []"
      by (cases c) simp_all
    have off0: "offset ?s0 = None"
      using True by (simp add: query_all_init_def)
    have p0: "build_params ?s0 = Inr (CursorParam c0)"
      using c0 by (simp add: build_params_def query_all_init_def)
    have "hd (requests evs) = (b, CursorParam c0)" if "rs \<noteq> []"
    proof -
      from that obtain r rs' where "rs = r # rs'" by (cases rs) auto
      with run0 have "run ?s0 (r # rs') = (evs, out)" by simp
      from run_first_request [OF init_facts(3) p0 this] show ?thesis
        by (auto simp: init_facts)
    qed
    with run_cursor_mode [OF off0 run0] True c0(1) show ?thesis
      by simp
  next
    case False
    have off0: "offset ?s0 = Some 0"
      using False by (simp add: query_all_init_def)
    have p0: "build_params ?s0 = Inr (OffsetParam 0)"
      using False off0 by (simp add: build_params_offset init_facts)
    have first: "hd (requests evs) = (b, OffsetParam 0)" if "rs \<noteq> []"
    proof -
      from that obtain r rs' where "rs = r # rs'" by (cases rs) auto
      with run0 have "run ?s0 (r # rs') = (evs, out)" by simp
      from run_first_request [OF init_facts(3) p0 this] show ?thesis
        by (auto simp: init_facts)
    qed
    have bound: "\<exists>off. offset s = Some off" if "outcome_state out = Some s" for s
    proof -
      let ?P = "\<lambda>s. \<not> truthy (cursor s) \<and> (\<exists>off. offset s = Some off)"
      have "(\<forall>e\<in>set evs. True) \<and> (\<forall>s'. outcome_state out = Some s' \<longrightarrow> ?P s')"
      proof (rule run_induct [where P = ?P and Q = "\<lambda>r. True" and G = "\<lambda>e. True", OF _ _ _ run0])
        show "?P ?s0" using False off0 by (simp add: init_facts)
      next
        show "\<forall>r\<in>set rs. True" by simp
      next
        fix s r evs res
        assume "?P s" and "iteration s r = (evs, res)"
        then show "(\<forall>e\<in>set evs. True) \<and> (\<forall>s'. res = Inr s' \<longrightarrow> ?P s')"
          using iteration_offset_mode [of s r evs] by auto
      qed
      with that show ?thesis by blast
    qed
    from run_offset_mode [OF False init_facts(6) run0] first bound False show ?thesis
      by simp
  qed
qed

text \<open>
  The same three responses (a failure and two good pages) in the two modes: the requests
  carry the cursor only, or the offset only.
\<close>

theorem mode_fixed_witness:
  "requests (fst (query_all 2 (Some ''*'') None
     [TransportError,
      Response 200 (Some (ok_payload 10 [1 :: nat] (Some (Some ''abc'')) None)),
      Response 200 (Some (ok_payload 10 [3, 4 :: nat] (Some (Some ''def'')) None))])) =
     [(2, CursorParam ''*''), (1, CursorParam ''*''), (2, CursorParam ''abc'')] \<and>
   requests (fst (query_all 2 None None
     [TransportError,
      Response 200 (Some (ok_payload 10 [1 :: nat] (Some (Some ''abc'')) None)),
      Response 200 (Some (ok_payload 10 [3, 4 :: nat] (Some (Some ''def'')) None))])) =
     [(2, OffsetParam 0), (1, OffsetParam 0), (2, OffsetParam 1)]"
proof -
  define rs :: "nat response list" where
    "rs = [TransportError,
      Response 200 (Some (ok_payload 10 [1 :: nat] (Some (Some ''abc'')) None)),
      Response 200 (Some (ok_payload 10 [3, 4 :: nat] (Some (Some ''def'')) None))]"
  have ne: "rs \<noteq> []" by (simp add: rs_def)
  have c: "query_all 2 (Some ''*'') None rs =
             (fst (query_all 2 (Some ''*'') None rs), snd (query_all 2 (Some ''*'') None rs))"
    and o: "query_all 2 None None rs =
             (fst (query_all 2 None None rs), snd (query_all 2 None None rs))"
    by simp_all
  from mode_fixed [OF c] ne
  have hc: "hd (requests (fst (query_all 2 (Some ''*'') None rs))) = (2, CursorParam ''*'')"
    by simp
  from mode_fixed [OF o] ne
  have ho: "hd (requests (fst (query_all 2 None None rs))) = (2, OffsetParam 0)"
    by simp
  have "requests (fst (query_all 2 (Some ''*'') None rs)) =
          [(2, CursorParam ''*''), (1, CursorParam ''*''), (2, CursorParam ''abc'')]"
    "requests (fst (query_all 2 None None rs)) =
          [(2, OffsetParam 0), (1, OffsetParam 0), (2, OffsetParam 1)]"
    unfolding rs_def by (simp_all add: eval_defs)
  with hc ho show ?thesis
    unfolding rs_def by simp
qed

subsection \<open>C8: one good page ends the state of emergency\<close>

text \<open>
  Claim C8. Whatever the streak of failures before it (any \<open>successive_errors\<close>, any
  \<open>rows\<close>), a pass whose call returns HTTP 200 with a payload of status \<open>ok\<close>, and that
  completes, leaves \<open>successive_errors = 0\<close> and \<open>rows = batch_size\<close>: the recovery is
  full and immediate.
\<close>

theorem success_resets:
  assumes "status result = Some ''ok''"
    and "iteration s (Response 200 (Some result)) = (evs, Inr s')"
  shows "successive_errors s' = 0 \<and> rows s' = batch_size s \<and> batch_size s' = batch_size s"
  using assms
  by (auto simp: pass_defs Let_def split: sum.splits option.splits if_splits)

text \<open>
  Three failures take \<open>rows\<close> from 20 to 8 and the counter to 3; the good page that
  follows is requested with \<open>rows = 8\<close> and resets both.
\<close>

theorem success_resets_witness:
  "query_all 20 None None [TransportError, Response 503 None, TransportError :: nat response] =
     ([Request 20 (OffsetParam 0), Sleep 2, Request 15 (OffsetParam 0), Sleep 4,
       Request 11 (OffsetParam 0), Sleep 8],
      Pending \<lparr>batch_size = 20, max_items = None, progress_bar = None, incomplete = True,
               successive_errors = 3, rows = 8, cursor = None, offset = Some 0\<rparr>) \<and>
   iteration \<lparr>batch_size = 20, max_items = None, progress_bar = None, incomplete = True,
               successive_errors = 3, rows = 8, cursor = None, offset = Some 0\<rparr>
        (Response 200 (Some (ok_payload 100 [1, 2, 3 :: nat] None None))) =
     ([Request 8 (OffsetParam 0), Yield 1, Yield 2, Yield 3],
      Inr \<lparr>batch_size = 20, max_items = None,
              progress_bar = Some \<lparr>tqdm_total = 100, tqdm_n = 3\<rparr>, incomplete = True,
              successive_errors = 0, rows = 20, cursor = None, offset = Some 3\<rparr>)"
proof -
  let ?s = "\<lparr>batch_size = 20, max_items = None, progress_bar = None, incomplete = True,
               successive_errors = 3, rows = 8, cursor = None, offset = Some 0\<rparr>"
  let ?page = "ok_payload 100 [1, 2, 3 :: nat] None None"
  have ok: "status ?page = Some ''ok''"
    by (simp add: ok_payload_def)
  obtain evs s' where it: "iteration ?s (Response 200 (Some ?page)) = (evs, Inr s')"
    by (simp add: pass_defs ok_payload_def py_slice_to_def Let_def)
  have run3: "query_all 20 None None [TransportError, Response 503 None, TransportError :: nat response] =
     ([Request 20 (OffsetParam 0), Sleep 2, Request 15 (OffsetParam 0), Sleep 4,
       Request 11 (OffsetParam 0), Sleep 8], Pending ?s)"
    by (simp add: query_all_def query_all_init_def pass_defs shrink_def Let_def)
  from success_resets [OF ok it] it run3 show ?thesis
    by (simp add: pass_defs ok_payload_def py_slice_to_def Let_def)
qed

subsection \<open>C9: a falsy \<open>next-cursor\<close>\<close>

text \<open>
  Claim C9, as amended. In cursor mode, when a good page comes with a falsy \<open>next-cursor\<close>
  (\<open>None\<close> or the empty string) and at least one item is taken from it, the run goes on
  with the falsy cursor and an offset that was never assigned; the next pass takes the
  offset branch of line 56 and raises \<open>NameError\<close> before it sends anything, whatever the
  responses that would follow.
\<close>

theorem falsy_next_cursor_raises:
  fixes result :: "'a payload"
  assumes "truthy c"
    and "query_all b c m rs = (evs0, Pending s)"
    and "status result = Some ''ok''"
    and "iteration s (Response 200 (Some result)) = (evs, Inr s')"
    and "message result = Some msg" and "next_cursor msg = Some nc" and "\<not> truthy nc"
    and "yields evs \<noteq> []"
  shows "query_all b c m (rs @ [Response 200 (Some result)]) = (evs0 @ evs, Pending s') \<and>
         cursor s' = nc \<and> offset s' = None \<and>
         (\<forall>r' :: 'a response. iteration s' r' = ([], Inl NameError)) \<and>
         (\<forall>r' rest. query_all b c m (rs @ Response 200 (Some result) # r' # rest) =
                      (evs0 @ evs, Raised NameError))"
proof -
  let ?r = "Response 200 (Some result)"
  from assms(2) have run0: "run (query_all_init b c m) rs = (evs0, Pending s)"
    by (simp add: query_all_def)
  have off: "offset s = None"
    using reach_cursor_mode [OF assms(1,2)] by simp
  have inc: "incomplete s"
    using run_outcome_incomplete [OF run0] by simp
  have off': "offset s' = None"
    by (rule iteration_cursor_mode [OF off assms(4)])
  have inc': "incomplete s'"
    using iteration_incomplete [OF assms(4) inc] assms(8) by simp
  have cur: "cursor s' = nc"
    using assms(4)
  proof (cases rule: iteration_cases)
    case (failure q)
    with assms(3) show ?thesis by simp
  next
    case (not_ok q result')
    with assms(3) show ?thesis by simp
  next
    case (page q result' pb all_items s2)
    let ?s1 = "s\<lparr>successive_errors := 0, rows := batch_size s\<rparr>"
    from page(1) have res: "result' = result" by simp
    from build_params_cursor_mode [OF off page(3)] have "truthy (cursor ?s1)" by auto
    from update_position_cursor [OF this page(6)] res assms(5,6) page(8) show ?thesis
      by auto
  qed
  have raise: "iteration s' r' = ([], Inl NameError)" for r' :: "'a response"
    using iteration_raises_NameError [OF off'] cur assms(7) by simp
  have one: "run s [?r] = (evs, Pending s')"
    using inc inc' assms(4) by simp
  have two: "run s (?r # r' # rest) = (evs, Raised NameError)" for r' rest
    unfolding run_pass [OF inc assms(4)] run_raise [OF inc' raise] by simp
  have "query_all b c m (rs @ [?r]) = (evs0 @ evs, Pending s')"
    using run_append [OF run0, of "[?r]"] one by (simp add: query_all_def del: run.simps)
  moreover have "query_all b c m (rs @ ?r # r' # rest) = (evs0 @ evs, Raised NameError)" for r' rest
    using run_append [OF run0, of "?r # r' # rest"] two [of r' rest]
    by (simp add: query_all_def del: run.simps)
  ultimately show ?thesis
    using cur off' raise by blast
qed

theorem falsy_next_cursor_raises_witness:
  "query_all 2 (Some ''*'') None
     [Response 200 (Some (ok_payload 10 [1, 2 :: nat] (Some None) None)), TransportError] =
     ([Request 2 (CursorParam ''*''), Yield 1, Yield 2], Raised NameError)"
proof -
  let ?page = "ok_payload 10 [1, 2 :: nat] (Some None) None"
  let ?s1 = "\<lparr>batch_size = 2, max_items = None,
               progress_bar = Some \<lparr>tqdm_total = 10, tqdm_n = 2\<rparr>, incomplete = True,
               successive_errors = 0, rows = 2, cursor = None, offset = None\<rparr>"
  have t: "truthy (Some ''*'')" by simp
  have r0: "query_all 2 (Some ''*'') None ([] :: nat response list) =
              ([], Pending (query_all_init 2 (Some ''*'') None))"
    by (simp add: query_all_def query_all_init_def)
  have ok: "status ?page = Some ''ok''"
    by (simp add: ok_payload_def)
  have i1: "iteration (query_all_init 2 (Some ''*'') None) (Response 200 (Some ?page)) =
              ([Request 2 (CursorParam ''*''), Yield 1, Yield 2], Inr ?s1)"
    by (simp add: eval_defs)
  have msg: "message ?page =
      Some \<lparr>total_results = Some 10, items = Some [1, 2], next_cursor = Some None, query = None\<rparr>"
    by (simp add: ok_payload_def)
  have nc: "next_cursor \<lparr>total_results = Some 10, items = Some [1, 2 :: nat], next_cursor = Some None,
              query = None\<rparr> = Some None"
    by simp
  have f: "\<not> truthy None" by simp
  have y: "yields [Request 2 (CursorParam ''*''), Yield 1, Yield (2 :: nat)] \<noteq> []" by simp
  from falsy_next_cursor_raises [OF t r0 ok i1 msg nc f y]
  have "\<forall>r' rest. query_all 2 (Some ''*'') None ([] @ Response 200 (Some ?page) # r' # rest) =
          ([] @ [Request 2 (CursorParam ''*''), Yield 1, Yield 2], Raised NameError)"
    by blast
  then show ?thesis by simp
qed

text \<open>
  The claim as stated asks only for a non-empty item list in the page. That is not enough:
  once \<open>max_items\<close> records are out, \<open>remaining\<close> is 0, nothing is taken from the page
  however many items it has, and the run ends cleanly with the falsy cursor, raising
  nothing.
\<close>

theorem falsy_next_cursor_counterexample:
  "query_all 2 (Some ''*'') (Some 2)
     [Response 200 (Some (ok_payload 10 [1, 2 :: nat] (Some (Some ''abc'')) None)),
      Response 200 (Some (ok_payload 10 [3, 4 :: nat] (Some None) None)),
      TransportError] =
     ([Request 2 (CursorParam ''*''), Yield 1, Yield 2, Request 2 (CursorParam ''abc'')],
      Finished \<lparr>batch_size = 2, max_items = Some 2,
                progress_bar = Some \<lparr>tqdm_total = 2, tqdm_n = 2\<rparr>, incomplete = False,
                successive_errors = 0, rows = 2, cursor = None, offset = None\<rparr>)"
  by (simp add: eval_defs)

subsection \<open>C10: the page size reaches 0 and the retries never stop\<close>

text \<open>
  Claim C10. For a positive \<open>batch_size\<close> there is a number \<open>K\<close> of consecutive failures
  (9 for \<open>batch_size = 20\<close>) such that \<open>rows\<close> is 0 after \<open>K\<close> failures and after any
  longer streak, and not before; every request sent after \<open>K\<close> or more failures asks
  for \<open>rows = 0\<close>. However long the streak, the run has neither ended nor raised: it stands
  at the head of the loop, and the sleeps were 2, 4, 8, ..., doubling each time.
\<close>

theorem rows_reach_zero:
  assumes "0 < b"
  shows "\<exists>K>0. (b = 20 \<longrightarrow> K = 9) \<and>
           (\<forall>fs :: 'a response list. (\<forall>r\<in>set fs. is_failure r) \<longrightarrow>
              (\<exists>evs s'. query_all b c m fs = (evs, Pending s') \<and>
                 successive_errors s' = length fs \<and>
                 (rows s' = 0) = (K \<le> length fs) \<and>
                 sleeps evs = map (\<lambda>k. 2 ^ k) [1..<Suc (length fs)] \<and>
                 length (requests evs) = length fs \<and>
                 (\<forall>k<length fs. (fst (requests evs ! k) = 0) = (K \<le> k))))"
proof -
  obtain K where K: "0 < K" "\<And>k. ((shrink ^^ k) b = 0) = (K \<le> k)"
    using rows_zero_threshold [OF assms] by blast
  have twenty: "K = 9" if "b = 20"
  proof -
    have "(shrink ^^ 9) (20::int) = 0" "(shrink ^^ 8) (20::int) \<noteq> 0"
      by code_simp+
    with K(2) [of 9] K(2) [of 8] that show ?thesis by simp
  qed
  have streak: "\<exists>evs s'. query_all b c m fs = (evs, Pending s') \<and>
                 successive_errors s' = length fs \<and>
                 (rows s' = 0) = (K \<le> length fs) \<and>
                 sleeps evs = map (\<lambda>k. 2 ^ k) [1..<Suc (length fs)] \<and>
                 length (requests evs) = length fs \<and>
                 (\<forall>k<length fs. (fst (requests evs ! k) = 0) = (K \<le> k))"
    if fs: "\<forall>r\<in>set fs. is_failure r" for fs :: "'a response list"
  proof -
    let ?s = "query_all_init b c m"
    obtain p where p: "build_params ?s = Inr p"
      using init_params by blast
    have inc: "incomplete ?s" and se: "successive_errors ?s = 0" and r0: "rows ?s = b"
      by (simp_all add: query_all_init_def)
    note run = run_failures [OF inc p fs, unfolded se r0]
    show ?thesis
      unfolding query_all_def run
      by (simp add: sleeps_failures requests_failures map_pow_upt K(2) del: upt_Suc)
  qed
  from K(1) twenty streak show ?thesis by blast
qed

theorem rows_reach_zero_witness:
  "\<exists>K>0. K = (9::nat) \<and>
     (\<exists>evs s'. query_all 20 (Some ''*'') None
         [TransportError, Response 500 None, TransportError, TransportError, TransportError,
          TransportError, TransportError, TransportError, Response 502 None,
          TransportError :: nat response] = (evs, Pending s') \<and>
        successive_errors s' = 10 \<and> rows s' = 0 \<and>
        sleeps evs = [2, 4, 8, 16, 32, 64, 128, 256, 512, 1024] \<and>
        map fst (requests evs) = [20, 15, 11, 8, 6, 4, 3, 2, 1, 0])"
proof -
  let ?fs = "[TransportError, Response 500 None, TransportError, TransportError, TransportError,
          TransportError, TransportError, TransportError, Response 502 None,
          TransportError :: nat response]"
  have pos: "(0::int) < 20" by simp
  have fails: "\<forall>r\<in>set ?fs. is_failure r" by simp
  from rows_reach_zero [OF pos, of "Some ''*''" None, where ?'a = nat]
  obtain K where K: "0 < K" "K = 9"
    and all: "\<And>fs :: nat response list. \<forall>r\<in>set fs. is_failure r \<Longrightarrow>
              (\<exists>evs s'. query_all 20 (Some ''*'') None fs = (evs, Pending s') \<and>
                 successive_errors s' = length fs \<and>
                 (rows s' = 0) = (K \<le> length fs) \<and>
                 sleeps evs = map (\<lambda>k. 2 ^ k) [1..<Suc (length fs)] \<and>
                 length (requests evs) = length fs \<and>
                 (\<forall>k<length fs. (fst (requests evs ! k) = 0) = (K \<le> k)))"
    by blast
  from all [OF fails] obtain evs s' where
    run: "query_all 20 (Some ''*'') None ?fs = (evs, Pending s')"
    and rest: "successive_errors s' = length ?fs" "(rows s' = 0) = (K \<le> length ?fs)"
    by blast
  have ev: "query_all 20 (Some ''*'') None ?fs =
     ([Request 20 (CursorParam ''*''), Sleep 2, Request 15 (CursorParam ''*''), Sleep 4,
       Request 11 (CursorParam ''*''), Sleep 8, Request 8 (CursorParam ''*''), Sleep 16,
       Request 6 (CursorParam ''*''), Sleep 32, Request 4 (CursorParam ''*''), Sleep 64,
       Request 3 (CursorParam ''*''), Sleep 128, Request 2 (CursorParam ''*''), Sleep 256,
       Request 1 (CursorParam ''*''), Sleep 512, Request 0 (CursorParam ''*''), Sleep 1024],
      Pending \<lparr>batch_size = 20, max_items = None, progress_bar = None, incomplete = True,
               successive_errors = 10, rows = 0, cursor = Some ''*'', offset = None\<rparr>)"
    by (simp add: query_all_def query_all_init_def pass_defs shrink_def Let_def)
  from run ev K rest show ?thesis by auto
qed

end
